theory Spec2Isabelle
  imports Main
begin

section \<open>Hybrid retrieval: \<^verbatim>\<open>src/lib/search-server.ts\<close>\<close>

text \<open>
  A \<^verbatim>\<open>VideoWithDetails\<close> row as the retrieval code uses it: the store's row id, the
  title, the publish timestamp (milliseconds since the epoch, absent when the column is
  null) and the embedded transcript's \<^verbatim>\<open>summary\<close> and \<^verbatim>\<open>cleaned_text\<close>; the
  semantic strategy overwrites the latter with the best-matching chunk.
\<close>

record video =
  v_id :: string
  title :: string
  published_at :: "int option"
  summary :: "string option"
  cleaned_text :: "string option"

text \<open>One row of the nearest-neighbour query \<^verbatim>\<open>match_transcript_chunks\<close>.\<close>

record semantic_result =
  chunk_id :: string
  video_id :: string
  content :: string

text \<open>\<^verbatim>\<open>[...new Set(xs)]\<close>: the distinct elements in order of first insertion.\<close>

fun set_spread :: "'a list \<Rightarrow> 'a list \<Rightarrow> 'a list" where
  "set_spread [] acc = acc"
| "set_spread (x # xs) acc = (if x \<in> set acc then set_spread xs acc else set_spread xs (acc @ [x]))"

text \<open>
  The callback of \<^verbatim>\<open>data.map\<close> in \<^verbatim>\<open>hybridSearch\<close>: the first semantic hit of the
  video (\<^verbatim>\<open>semanticResults.find\<close>) replaces the transcript snippet.
\<close>

definition attachBestChunk :: "semantic_result list \<Rightarrow> video \<Rightarrow> video" where
  "attachBestChunk semanticResults v =
     (case find (\<lambda>r. video_id r = v_id v) semanticResults of
        Some bestChunk \<Rightarrow> v\<lparr>cleaned_text := Some (content bestChunk)\<rparr>
      | None \<Rightarrow> v)"

text \<open>
  The semantic strategy's videos. \<open>fetch\<close> is the store query
  \<^verbatim>\<open>.in('id', semanticVideoIds).eq('status', 'completed')\<close>; its \<^verbatim>\<open>data\<close> is null
  (\<open>None\<close>) when the query fails.
\<close>

definition semanticVideos :: "semantic_result list \<Rightarrow> (string list \<Rightarrow> video list option) \<Rightarrow> video list" where
  "semanticVideos semanticResults fetch =
     (let semanticVideoIds = set_spread (map video_id semanticResults) []
      in if length semanticVideoIds > 0
         then (case fetch semanticVideoIds of
                 Some data \<Rightarrow> map (attachBestChunk semanticResults) data
               | None \<Rightarrow> [])
         else [])"

text \<open>
  The deduplication loop: \<^verbatim>\<open>for (const v of allVideos) if (!seenIds.has(v.id)) \<dots>\<close>,
  with the set of seen ids and the list built so far as the loop's state.
\<close>

fun dedupLoop :: "video list \<Rightarrow> string set \<Rightarrow> video list \<Rightarrow> video list" where
  "dedupLoop [] seenIds uniqueVideos = uniqueVideos"
| "dedupLoop (v # vs) seenIds uniqueVideos =
     (if v_id v \<notin> seenIds
      then dedupLoop vs (insert (v_id v) seenIds) (uniqueVideos @ [v])
      else dedupLoop vs seenIds uniqueVideos)"

text \<open>
  The merge of \<^verbatim>\<open>hybridSearch\<close>, after the three strategies have answered:
  \<^verbatim>\<open>[...tagResults, ...semanticVideos, ...keywordResults]\<close>, deduplicated, then
  \<^verbatim>\<open>slice(0, limit)\<close>. The limit is a result count (the search page passes 50).
\<close>

definition mergeResults :: "video list \<Rightarrow> video list \<Rightarrow> video list \<Rightarrow> nat \<Rightarrow> video list" where
  "mergeResults tagResults semVideos keywordResults limit =
     (let allVideos = tagResults @ semVideos @ keywordResults;
          uniqueVideos = dedupLoop allVideos {} []
      in take limit uniqueVideos)"

definition hybridSearch ::
  "semantic_result list \<Rightarrow> video list \<Rightarrow> video list \<Rightarrow> (string list \<Rightarrow> video list option) \<Rightarrow> nat \<Rightarrow> video list" where
  "hybridSearch semanticResults keywordResults tagResults fetch limit =
     mergeResults tagResults (semanticVideos semanticResults fetch) keywordResults limit"

text \<open>
  The merge policy in the specification's words: keep, of every video id, the first
  occurrence only.
\<close>

fun keepFirst :: "video list \<Rightarrow> video list" where
  "keepFirst [] = []"
| "keepFirst (v # vs) = v # keepFirst (filter (\<lambda>w. v_id w \<noteq> v_id v) vs)"

text \<open>Rows and semantic hits for the concrete instances below.\<close>

definition row :: "string \<Rightarrow> string \<Rightarrow> video" where
  "row i t = \<lparr>v_id = i, title = t, published_at = None, summary = None,
     cleaned_text = Some ''full text''\<rparr>"

definition hit :: "string \<Rightarrow> string \<Rightarrow> string \<Rightarrow> semantic_result" where
  "hit c v t = \<lparr>chunk_id = c, video_id = v, content = t\<rparr>"

section \<open>Lexical retrieval: \<^verbatim>\<open>searchVideos\<close> in \<^verbatim>\<open>src/lib/supabase.ts\<close>\<close>

text \<open>
  One row of the full-text query over \<^verbatim>\<open>transcripts\<close>: the embedded video and the
  transcript's own \<^verbatim>\<open>summary\<close> and \<^verbatim>\<open>cleaned_text\<close>.
\<close>

record transcript_hit =
  hit_video :: video
  hit_summary :: "string option"
  hit_cleaned_text :: "string option"

text \<open>The callback of \<^verbatim>\<open>transcriptResults.data.map\<close>.\<close>

definition mapTranscriptResult :: "transcript_hit \<Rightarrow> video" where
  "mapTranscriptResult t = (hit_video t)\<lparr>summary := hit_summary t, cleaned_text := hit_cleaned_text t\<rparr>"

text \<open>
  \<^verbatim>\<open>Map.prototype.set\<close> on the entries of a \<^verbatim>\<open>Map\<close>, kept in insertion order: a key
  that is present keeps its place and takes the new value, a new key goes last.
\<close>

fun map_set :: "('k \<times> 'v) list \<Rightarrow> 'k \<Rightarrow> 'v \<Rightarrow> ('k \<times> 'v) list" where
  "map_set [] k v = [(k, v)]"
| "map_set ((k', v') # es) k v = (if k' = k then (k, v) # es else (k', v') # map_set es k v)"

text \<open>\<^verbatim>\<open>Array.from(new Map(allVideos.map(v => [v.id, v])).values())\<close>.\<close>

definition uniqueById :: "video list \<Rightarrow> video list" where
  "uniqueById allVideos = map snd (foldl (\<lambda>m v. map_set m (v_id v) v) [] allVideos)"

text \<open>\<^verbatim>\<open>new Date(v.published_at || 0).getTime()\<close>.\<close>

definition publishedTime :: "video \<Rightarrow> int" where
  "publishedTime v = (case published_at v of Some t \<Rightarrow> t | None \<Rightarrow> 0)"

text \<open>
  \<^verbatim>\<open>uniqueVideos.sort((a, b) => time(b) - time(a))\<close>: the sort of an array is stable,
  so it is the stable sort by descending publish time.
\<close>

definition sortByPublished :: "video list \<Rightarrow> video list" where
  "sortByPublished vs = sort_key (\<lambda>v. - publishedTime v) vs"

text \<open>
  \<^verbatim>\<open>searchVideos\<close> once the two store queries have answered. Each query's
  \<^verbatim>\<open>data\<close> holds the rows in the order the store returned them and is null (\<open>None\<close>)
  when the query failed.
\<close>

definition searchVideos :: "video list option \<Rightarrow> transcript_hit list option \<Rightarrow> nat \<Rightarrow> nat \<Rightarrow> video list" where
  "searchVideos videoResults transcriptResults limit offset =
     (let mappedTranscriptResults =
            map mapTranscriptResult (case transcriptResults of Some d \<Rightarrow> d | None \<Rightarrow> []);
          parsedVideoResults = (case videoResults of Some d \<Rightarrow> d | None \<Rightarrow> []);
          allVideos = parsedVideoResults @ mappedTranscriptResults;
          uniqueVideos = sortByPublished (uniqueById allVideos)
      in take limit (drop offset uniqueVideos))"

text \<open>
  The rows of the two queries in the order the store returned them: what
  \<^verbatim>\<open>allVideos\<close> holds before deduplication and sorting.
\<close>

definition storeRows :: "video list option \<Rightarrow> transcript_hit list option \<Rightarrow> video list" where
  "storeRows videoResults transcriptResults =
     (case videoResults of Some d \<Rightarrow> d | None \<Rightarrow> [])
     @ map mapTranscriptResult (case transcriptResults of Some d \<Rightarrow> d | None \<Rightarrow> [])"

text \<open>Rows with a publish time, for the concrete instances below.\<close>

definition dated :: "string \<Rightarrow> int \<Rightarrow> video" where
  "dated i t = \<lparr>v_id = i, title = i, published_at = Some t, summary = None, cleaned_text = None\<rparr>"

definition ftsHit :: "video \<Rightarrow> transcript_hit" where
  "ftsHit v = \<lparr>hit_video = v, hit_summary = None, hit_cleaned_text = Some ''text''\<rparr>"

section \<open>Transcript acquisition: \<^verbatim>\<open>fetchTranscript\<close>, \<^verbatim>\<open>transcribeWithWhisper\<close>\<close>

text \<open>
  A timed segment (offset and duration in milliseconds, as the code stores them after
  \<^verbatim>\<open>Math.round\<close>) and the \<^verbatim>\<open>TranscriptResult\<close> of both providers. The source tag
  is the string the code writes into the \<^verbatim>\<open>source\<close> column.
\<close>

record transcript_segment =
  seg_text :: string
  seg_offset :: int
  seg_duration :: int

record transcript_result =
  tr_text :: string
  tr_segments :: "transcript_segment list"
  tr_source :: string

text \<open>
  A call of an external service either throws (with the text \<^verbatim>\<open>String(error)\<close> of what
  it threw) or returns.
\<close>

datatype 'a outcome = Throws string | Returns 'a

text \<open>\<^verbatim>\<open>xs.join(' ')\<close> on an array of strings.\<close>

fun join_space :: "string list \<Rightarrow> string" where
  "join_space [] = []"
| "join_space [x] = x"
| "join_space (x # y # ys) = x @ '' '' @ join_space (y # ys)"

text \<open>
  \<^verbatim>\<open>fetchTranscript\<close>: the caption provider answers with its segments, with nothing
  (\<open>None\<close>) or throws; a missing or empty answer and a throw all give null.
\<close>

definition fetchTranscript :: "transcript_segment list option outcome \<Rightarrow> transcript_result option" where
  "fetchTranscript provider =
     (case provider of
        Throws e \<Rightarrow> None
      | Returns None \<Rightarrow> None
      | Returns (Some segments) \<Rightarrow>
          if length segments = 0 then None
          else Some \<lparr>tr_text = join_space (map seg_text segments),
                      tr_segments = segments,
                      tr_source = ''extractor''\<rparr>)"

text \<open>
  JavaScript's white space among the characters below 256 (\<^verbatim>\<open>\s\<close> and what
  \<^verbatim>\<open>trim\<close> removes): tab, line feed, vertical tab, form feed, carriage return, space
  and the no-break space.
\<close>

definition is_space :: "char \<Rightarrow> bool" where
  "is_space c = (c \<in> {CHR 0x09, CHR 0x0A, CHR 0x0B, CHR 0x0C, CHR 0x0D, CHR 0x20, CHR 0xA0})"

definition trim :: "string \<Rightarrow> string" where
  "trim s = rev (dropWhile is_space (rev (dropWhile is_space s)))"

text \<open>
  What \<^verbatim>\<open>transcribeWithWhisper\<close> meets outside the program: a file that was
  already at the scratch path (\<open>None\<close> when there is none), whether
  \<^verbatim>\<open>yt-dlp --version\<close> runs, whether the download command returns without throwing,
  the size in bytes of the mp3 file at the scratch path once the download command has run
  (\<open>None\<close> when there is none), and the answer of the speech-to-text provider: its text
  and its segments. File operations on an existing file are taken to succeed.
\<close>

record whisper_response =
  resp_text :: string
  resp_segments :: "transcript_segment list option"

record whisper_env =
  stale_file :: "nat option"
  ytdlp_available :: bool
  download_returns :: bool
  audio_file :: "nat option"
  transcription :: "whisper_response outcome"

text \<open>
  What a run of \<^verbatim>\<open>transcribeWithWhisper\<close> does: the value it returns, whether it
  called the speech-to-text provider, and the scratch file it leaves on disk.
\<close>

record whisper_run =
  wr_result :: "transcript_result option"
  provider_invoked :: bool
  scratch_file :: "nat option"

text \<open>
  \<^verbatim>\<open>fileSizeInMB > 24\<close> with \<^verbatim>\<open>fileSizeInMB = stats.size / (1024 * 1024)\<close>: the
  division by a power of two is exact, so the test is on the size in bytes.
\<close>

definition tooLarge :: "nat \<Rightarrow> bool" where
  "tooLarge size_bytes = (size_bytes > 24 * (1024 * 1024))"

definition transcribeWithWhisper :: "whisper_env \<Rightarrow> whisper_run" where
  "transcribeWithWhisper env =
     (if \<not> ytdlp_available env
      then \<comment> \<open>the inner \<^verbatim>\<open>catch\<close> returns null at once\<close>
           \<lparr>wr_result = None, provider_invoked = False, scratch_file = stale_file env\<rparr>
      else if \<not> download_returns env
      then \<comment> \<open>the outer \<^verbatim>\<open>catch\<close>: remove the file if it exists\<close>
           \<lparr>wr_result = None, provider_invoked = False, scratch_file = None\<rparr>
      else case audio_file env of
        None \<Rightarrow> \<lparr>wr_result = None, provider_invoked = False, scratch_file = None\<rparr>
      | Some size_bytes \<Rightarrow>
          if tooLarge size_bytes
          then \<comment> \<open>\<^verbatim>\<open>fs.unlinkSync(expectedFile); return null\<close>\<close>
               \<lparr>wr_result = None, provider_invoked = False, scratch_file = None\<rparr>
          else (case transcription env of
                  Throws e \<Rightarrow> \<lparr>wr_result = None, provider_invoked = True, scratch_file = None\<rparr>
                | Returns response \<Rightarrow>
                    let manualSegments =
                          map (\<lambda>seg. seg\<lparr>seg_text := trim (seg_text seg)\<rparr>)
                            (case resp_segments response of Some segs \<Rightarrow> segs | None \<Rightarrow> []);
                        fullText = (if resp_text response \<noteq> [] then resp_text response
                                    else join_space (map seg_text manualSegments))
                    in \<lparr>wr_result = Some \<lparr>tr_text = fullText, tr_segments = manualSegments,
                                            tr_source = ''whisper''\<rparr>,
                        provider_invoked = True, scratch_file = None\<rparr>))"

text \<open>
  The acquisition step of \<^verbatim>\<open>ingestVideo\<close>: the caption provider first, the audio
  transcription only when that gave null.
\<close>

definition acquireTranscript :: "transcript_segment list option outcome \<Rightarrow> whisper_env \<Rightarrow> transcript_result option" where
  "acquireTranscript provider env =
     (case fetchTranscript provider of
        Some transcriptResult \<Rightarrow> Some transcriptResult
      | None \<Rightarrow> wr_result (transcribeWithWhisper env))"

text \<open>An audio download and a provider answer for the concrete instances below.\<close>

definition audioEnv :: "nat \<Rightarrow> whisper_env" where
  "audioEnv size_bytes =
     \<lparr>stale_file = None, ytdlp_available = True, download_returns = True, audio_file = Some size_bytes,
      transcription = Returns \<lparr>resp_text = ''hello world'', resp_segments = None\<rparr>\<rparr>"

section \<open>Chunker: \<^verbatim>\<open>splitText\<close> in the embedding script\<close>

definition CHUNK_SIZE :: nat where
  "CHUNK_SIZE = 1000"

definition CHUNK_OVERLAP :: nat where
  "CHUNK_OVERLAP = 100"

text \<open>\<^verbatim>\<open>s.replace(/\s+/g, ' ')\<close>: every maximal run of white space becomes one space.\<close>

function collapse_ws :: "string \<Rightarrow> string" where
  "collapse_ws [] = []"
| "collapse_ws (c # cs) =
     (if is_space c then CHR '' '' # collapse_ws (dropWhile is_space cs) else c # collapse_ws cs)"
  by pat_completeness auto
termination
  by (relation "measure length") (auto simp: less_Suc_eq_le length_dropWhile_le)

text \<open>\<^verbatim>\<open>s.slice(start, end)\<close> for indices that are not negative.\<close>

definition js_slice :: "'a list \<Rightarrow> nat \<Rightarrow> nat \<Rightarrow> 'a list" where
  "js_slice s start end = take (end - start) (drop start s)"

text \<open>\<^verbatim>\<open>s.lastIndexOf(c)\<close>: the last index holding \<open>c\<close>, or -1.\<close>

fun lastIndexFrom :: "string \<Rightarrow> char \<Rightarrow> nat \<Rightarrow> int \<Rightarrow> int" where
  "lastIndexFrom [] c i found = found"
| "lastIndexFrom (x # xs) c i found = lastIndexFrom xs c (Suc i) (if x = c then int i else found)"

definition lastIndexOf :: "string \<Rightarrow> char \<Rightarrow> int" where
  "lastIndexOf s c = lastIndexFrom s c 0 (- 1)"

text \<open>
  The end of the window that starts at \<open>start\<close>: \<open>start + CHUNK_SIZE\<close>, moved to just
  after the last full stop of the 50 characters longer slice when the window does not
  reach the end of the text and that full stop lies beyond \<^verbatim>\<open>CHUNK_SIZE * 0.8\<close>, which
  is 800.
\<close>

definition chunkEnd :: "string \<Rightarrow> nat \<Rightarrow> nat" where
  "chunkEnd normalized start =
     (let end = start + CHUNK_SIZE
      in if end < length normalized
         then (let boundary = lastIndexOf (js_slice normalized start (end + 50)) CHR ''.''
               in if boundary > 800 then start + nat boundary + 1 else end)
         else end)"

text \<open>
  The loop \<^verbatim>\<open>while (start < normalized.length)\<close>. Not returning is the value \<open>None\<close>.
  The next start \<^verbatim>\<open>end - CHUNK_OVERLAP\<close> is never negative, since the end is at least
  802 (lemma \<open>chunkEnd_lower\<close>).
\<close>

partial_function (option) splitLoop :: "string \<Rightarrow> nat \<Rightarrow> string list \<Rightarrow> string list option" where
  "splitLoop normalized start chunks =
     (if start < length normalized
      then splitLoop normalized (chunkEnd normalized start - CHUNK_OVERLAP)
             (chunks @ [trim (js_slice normalized start (chunkEnd normalized start))])
      else Some chunks)"

declare splitLoop.simps [code]

definition normalizeText :: "string \<Rightarrow> string" where
  "normalizeText s = trim (collapse_ws s)"

definition splitText :: "string \<Rightarrow> string list option" where
  "splitText s = (if s = [] then Some [] else splitLoop (normalizeText s) 0 [])"

text \<open>
  The windows the loop cuts, before \<^verbatim>\<open>trim\<close>: the same walk, as a total function
  (its termination is the strict advance of the cursor).
\<close>

function splitWindows :: "string \<Rightarrow> nat \<Rightarrow> string list" where
  "splitWindows normalized start =
     (if start < length normalized
      then js_slice normalized start (chunkEnd normalized start)
           # splitWindows normalized (chunkEnd normalized start - CHUNK_OVERLAP)
      else [])"
  by pat_completeness auto
termination
  by (relation "measure (\<lambda>(normalized, start). length normalized - start)")
     (auto simp: chunkEnd_def Let_def CHUNK_SIZE_def CHUNK_OVERLAP_def)

declare splitWindows.simps [simp del]

text \<open>
  Concatenation with the overlap removed from each successor, as the specification puts
  it.
\<close>

fun removeOverlap :: "string list \<Rightarrow> string" where
  "removeOverlap [] = []"
| "removeOverlap (w # ws) = w @ concat (map (drop CHUNK_OVERLAP) ws)"

text \<open>A text of 1001 characters whose 1000th character is a space.\<close>

definition longText :: string where
  "longText = replicate 999 CHR ''a'' @ '' b''"

section \<open>Enrichment: \<^verbatim>\<open>processTranscript\<close> in \<^verbatim>\<open>src/lib/llm.ts\<close>\<close>

text \<open>
  An element of the array the tagging call answers: a string, \<^verbatim>\<open>null\<close>, or another
  JSON value that is not a string (a number, a boolean, an array, an object);
  \<^verbatim>\<open>generateTags\<close> hands \<^verbatim>\<open>parsed.tags\<close> on unchecked.
\<close>

datatype json_value = JString string | JNull | JOther

text \<open>
  The content of the tagging call's answer: text that \<^verbatim>\<open>JSON.parse\<close> rejects, an
  object whose \<^verbatim>\<open>tags\<close> is no array, or an object with an array of tags.
\<close>

datatype tag_reply = Unparsable | NoTagArray | TagArray "json_value list"

text \<open>
  The three language-model calls as \<^verbatim>\<open>processTranscript\<close> meets them: each throws or
  returns. Summary and tagging run concurrently; \<open>tags_rejects_first\<close> says which of
  the two is the first to fail when both do.
\<close>

record llm_env =
  clean_call :: "string outcome"
  summary_call :: "string outcome"
  tags_call :: "tag_reply outcome"
  tags_rejects_first :: bool

record processed =
  cleanedText :: string
  p_summary :: string
  p_tags :: "json_value list"

text \<open>\<^verbatim>\<open>generateTags\<close>: a malformed answer gives the empty list, a failed call throws.\<close>

definition generateTags :: "tag_reply outcome \<Rightarrow> json_value list outcome" where
  "generateTags call =
     (case call of
        Throws e \<Rightarrow> Throws e
      | Returns Unparsable \<Rightarrow> Returns []
      | Returns NoTagArray \<Rightarrow> Returns []
      | Returns (TagArray ts) \<Rightarrow> Returns ts)"

text \<open>
  \<^verbatim>\<open>processTranscript\<close>: cleaning first, then \<^verbatim>\<open>Promise.all\<close> of summary and tags,
  which rejects with the error of the first of the two that fails.
\<close>

definition processTranscript :: "llm_env \<Rightarrow> processed outcome" where
  "processTranscript env =
     (case clean_call env of
        Throws e \<Rightarrow> Throws e
      | Returns cleaned \<Rightarrow>
          (case summary_call env of
             Throws summaryError \<Rightarrow>
               (case generateTags (tags_call env) of
                  Throws tagsError \<Rightarrow>
                    Throws (if tags_rejects_first env then tagsError else summaryError)
                | Returns ts \<Rightarrow> Throws summaryError)
           | Returns s \<Rightarrow>
               (case generateTags (tags_call env) of
                  Throws tagsError \<Rightarrow> Throws tagsError
                | Returns ts \<Rightarrow> Returns \<lparr>cleanedText = cleaned, p_summary = s, p_tags = ts\<rparr>)))"

section \<open>The store and the orchestrator: \<^verbatim>\<open>ingestVideo\<close> in \<^verbatim>\<open>src/scripts/ingest.ts\<close>\<close>

text \<open>
  The tables \<^verbatim>\<open>ingestVideo\<close> writes, as lists of rows in insertion order, with the
  columns the code sets. Row ids (\<^verbatim>\<open>gen_random_uuid()\<close>) are drawn from a counter.
  The schema makes \<^verbatim>\<open>videos.youtube_id\<close>, \<^verbatim>\<open>transcripts.video_id\<close> and
  \<^verbatim>\<open>tags.name\<close> unique and \<^verbatim>\<open>(video_id, tag_id)\<close> the primary key of
  \<^verbatim>\<open>video_tags\<close>.
\<close>

record video_row =
  vr_id :: nat
  vr_channel_id :: nat
  vr_youtube_id :: string
  vr_title :: string
  vr_status :: string

record transcript_row =
  t_id :: nat
  t_video_id :: nat
  t_raw_text :: string
  t_cleaned_text :: string
  t_summary :: "string option"
  t_source :: string
  t_processing_status :: string

record tag_row =
  tag_id :: nat
  tag_name :: string

datatype details = ErrorDetails string | SourceDetails string nat | TagsDetails "json_value list"

record log_entry =
  log_video_id :: nat
  log_step :: string
  log_status :: string
  log_details :: "details option"

record store =
  videos :: "video_row list"
  transcripts :: "transcript_row list"
  tags :: "tag_row list"
  video_tags :: "(nat \<times> nat) list"
  ingestion_logs :: "log_entry list"
  next_id :: nat

text \<open>What \<^verbatim>\<open>getVideo\<close> returns of the video's metadata.\<close>

record video_info =
  vi_id :: string
  vi_title :: string

text \<open>Everything outside the program that one run of \<^verbatim>\<open>ingestVideo\<close> meets.\<close>

record world =
  w_getVideo :: "video_info option outcome"
  w_captions :: "transcript_segment list option outcome"
  w_whisper :: whisper_env
  w_llm :: llm_env

datatype ingest_result = Skipped | Failed string | Success | Raised string

text \<open>The closure \<^verbatim>\<open>log\<close>: one insert into \<^verbatim>\<open>ingestion_logs\<close>.\<close>

definition log :: "nat \<Rightarrow> string \<Rightarrow> string \<Rightarrow> details option \<Rightarrow> store \<Rightarrow> store" where
  "log videoDbId step status details st =
     st\<lparr>ingestion_logs := ingestion_logs st
        @ [\<lparr>log_video_id = videoDbId, log_step = step, log_status = status, log_details = details\<rparr>]\<rparr>"

text \<open>\<^verbatim>\<open>from('videos').update({ status }).eq('id', videoDbId)\<close>.\<close>

definition setStatus :: "nat \<Rightarrow> string \<Rightarrow> store \<Rightarrow> store" where
  "setStatus videoDbId status st =
     st\<lparr>videos := map (\<lambda>v. if vr_id v = videoDbId then v\<lparr>vr_status := status\<rparr> else v) (videos st)\<rparr>"

text \<open>
  \<^verbatim>\<open>from('transcripts').upsert({...})\<close> with no \<^verbatim>\<open>onConflict\<close>: the conflict target
  is the primary key \<^verbatim>\<open>id\<close>, which the new row draws fresh. A row for the same video
  therefore violates the unique \<^verbatim>\<open>video_id\<close>; the store rejects the write, and the code
  does not look at the error.
\<close>

definition upsertTranscript :: "nat \<Rightarrow> string \<Rightarrow> string \<Rightarrow> string option \<Rightarrow> string \<Rightarrow> store \<Rightarrow> store" where
  "upsertTranscript videoDbId raw cleaned summ src st =
     (if list_ex (\<lambda>t. t_video_id t = videoDbId) (transcripts st) then st
      else st\<lparr>transcripts := transcripts st
                 @ [\<lparr>t_id = next_id st, t_video_id = videoDbId, t_raw_text = raw,
                     t_cleaned_text = cleaned, t_summary = summ, t_source = src,
                     t_processing_status = ''completed''\<rparr>],
              next_id := Suc (next_id st)\<rparr>)"

text \<open>
  \<^verbatim>\<open>from('tags').upsert({ name }, { onConflict: 'name' }).select().single()\<close>: the row
  with that name if there is one, a new row otherwise; the row is returned.
\<close>

definition upsertTag :: "string \<Rightarrow> store \<Rightarrow> store \<times> tag_row" where
  "upsertTag name st =
     (case find (\<lambda>t. tag_name t = name) (tags st) of
        Some t \<Rightarrow> (st, t)
      | None \<Rightarrow>
          (let t = \<lparr>tag_id = next_id st, tag_name = name\<rparr>
           in (st\<lparr>tags := tags st @ [t], next_id := Suc (next_id st)\<rparr>, t)))"

text \<open>
  \<^verbatim>\<open>from('video_tags').upsert({ video_id, tag_id })\<close>: the conflict target is the
  primary key, the pair itself.
\<close>

definition upsertVideoTag :: "nat \<Rightarrow> nat \<Rightarrow> store \<Rightarrow> store" where
  "upsertVideoTag videoDbId tagId st =
     (if (videoDbId, tagId) \<in> set (video_tags st) then st
      else st\<lparr>video_tags := video_tags st @ [(videoDbId, tagId)]\<rparr>)"

text \<open>\<^verbatim>\<open>String.prototype.toLowerCase\<close> on characters below 256.\<close>

definition lower_char :: "char \<Rightarrow> char" where
  "lower_char c =
     (let n = (of_char c :: nat)
      in if (65 \<le> n \<and> n \<le> 90) \<or> (192 \<le> n \<and> n \<le> 222 \<and> n \<noteq> 215)
         then char_of (n + 32) else c)"

definition toLowerCase :: "string \<Rightarrow> string" where
  "toLowerCase s = map lower_char s"

text \<open>
  The loop \<^verbatim>\<open>for (const tagName of tags)\<close>. \<^verbatim>\<open>tagName.toLowerCase()\<close> throws on
  an element that is not a string, with one text for \<^verbatim>\<open>null\<close> and another for the
  other values; what was written before stays written. The result is the store and the
  text of what was thrown, if anything.
\<close>

definition linkTag :: "nat \<Rightarrow> string \<Rightarrow> store \<Rightarrow> store" where
  "linkTag videoDbId name st =
     (let (st1, tag) = upsertTag name st
      in upsertVideoTag videoDbId (tag_id tag) st1)"

fun saveTags :: "nat \<Rightarrow> json_value list \<Rightarrow> store \<Rightarrow> store \<times> string option" where
  "saveTags videoDbId [] st = (st, None)"
| "saveTags videoDbId (JNull # ts) st =
     (st, Some ''TypeError: Cannot read properties of null (reading 'toLowerCase')'')"
| "saveTags videoDbId (JOther # ts) st =
     (st, Some ''TypeError: tagName.toLowerCase is not a function'')"
| "saveTags videoDbId (JString tagName # ts) st =
     saveTags videoDbId ts (linkTag videoDbId (toLowerCase tagName) st)"


text \<open>
  The body of the \<^verbatim>\<open>try\<close> block from the transcript on, and the \<^verbatim>\<open>catch\<close> around
  it.
\<close>

definition saveAndComplete ::
  "nat \<Rightarrow> transcript_result \<Rightarrow> string \<Rightarrow> string \<Rightarrow> json_value list \<Rightarrow> store \<Rightarrow> ingest_result \<times> store" where
  "saveAndComplete videoDbId transcriptResult cleaned summ tgs st =
     (let st1 = upsertTranscript videoDbId (tr_text transcriptResult) cleaned
                  (if summ = [] then None else Some summ) (tr_source transcriptResult) st;
          (st2, thrown) = saveTags videoDbId tgs st1
      in case thrown of
           None \<Rightarrow> (Success, setStatus videoDbId ''completed'' st2)
         | Some e \<Rightarrow>
             (Failed e, setStatus videoDbId ''failed'' (log videoDbId ''error'' ''failed'' (Some (ErrorDetails e)) st2)))"

definition processVideo :: "world \<Rightarrow> nat \<Rightarrow> bool \<Rightarrow> store \<Rightarrow> ingest_result \<times> store" where
  "processVideo w videoDbId skipLlmProcessing st =
     (let st1 = log videoDbId ''fetch_transcript'' ''started'' None st
      in case acquireTranscript (w_captions w) (w_whisper w) of
           None \<Rightarrow>
             (Failed ''No transcript'',
              setStatus videoDbId ''failed''
                (log videoDbId ''fetch_transcript'' ''failed'' (Some (ErrorDetails ''No transcript found'')) st1))
         | Some transcriptResult \<Rightarrow>
             (let st2 = log videoDbId ''fetch_transcript'' ''completed''
                          (Some (SourceDetails (tr_source transcriptResult) (length (tr_text transcriptResult)))) st1
              in if \<not> skipLlmProcessing
                 then (let st3 = log videoDbId ''llm_processing'' ''started'' None st2
                       in case processTranscript (w_llm w) of
                            Returns p \<Rightarrow>
                              saveAndComplete videoDbId transcriptResult (cleanedText p) (p_summary p) (p_tags p)
                                (log videoDbId ''llm_processing'' ''completed'' (Some (TagsDetails (p_tags p))) st3)
                          | Throws llmError \<Rightarrow>
                              saveAndComplete videoDbId transcriptResult (tr_text transcriptResult) [] []
                                (log videoDbId ''llm_processing'' ''failed'' (Some (ErrorDetails llmError)) st3))
                 else saveAndComplete videoDbId transcriptResult (tr_text transcriptResult) [] [] st2))"

text \<open>
  \<^verbatim>\<open>ingestVideo\<close>. What is thrown before the \<^verbatim>\<open>try\<close> block leaves the function
  (\<open>Raised\<close>): a failed call of \<^verbatim>\<open>getVideo\<close>, and the insert of a video whose
  \<^verbatim>\<open>youtube_id\<close> is already in the table.
\<close>

definition ingestVideo :: "world \<Rightarrow> nat \<Rightarrow> string \<Rightarrow> bool \<Rightarrow> store \<Rightarrow> ingest_result \<times> store" where
  "ingestVideo w channelDbId ytVideoId skipLlmProcessing st =
     (let existing = find (\<lambda>v. vr_youtube_id v = ytVideoId) (videos st)
      in if map_option vr_status existing = Some ''completed'' then (Skipped, st)
         else case w_getVideo w of
           Throws e \<Rightarrow> (Raised e, st)
         | Returns None \<Rightarrow> (Failed ''Video not found'', st)
         | Returns (Some videoInfo) \<Rightarrow>
             (case existing of
                Some found \<Rightarrow>
                  processVideo w (vr_id found) skipLlmProcessing (setStatus (vr_id found) ''processing'' st)
              | None \<Rightarrow>
                  if list_ex (\<lambda>v. vr_youtube_id v = vi_id videoInfo) (videos st)
                  then (Raised ''duplicate key value violates unique constraint'', st)
                  else processVideo w (next_id st) skipLlmProcessing
                         (st\<lparr>videos := videos st
                               @ [\<lparr>vr_id = next_id st, vr_channel_id = channelDbId,
                                   vr_youtube_id = vi_id videoInfo, vr_title = vi_title videoInfo,
                                   vr_status = ''processing''\<rparr>],
                             next_id := Suc (next_id st)\<rparr>)))"

text \<open>
  The row id a run for \<open>ytVideoId\<close> works on: the existing row's, or the one the new
  row draws. A run gets as far as the \<^verbatim>\<open>try\<close> block when the video is not yet
  completed, \<^verbatim>\<open>getVideo\<close> finds it and its row exists or can be inserted.
\<close>

definition videoDbIdOf :: "string \<Rightarrow> store \<Rightarrow> nat" where
  "videoDbIdOf ytVideoId st =
     (case find (\<lambda>v. vr_youtube_id v = ytVideoId) (videos st) of
        Some found \<Rightarrow> vr_id found
      | None \<Rightarrow> next_id st)"

text \<open>The store after the step \<^verbatim>\<open>Insert or update video\<close> has run without throwing.\<close>

definition claimVideo :: "video_info \<Rightarrow> nat \<Rightarrow> string \<Rightarrow> store \<Rightarrow> store" where
  "claimVideo videoInfo channelDbId ytVideoId st =
     (case find (\<lambda>v. vr_youtube_id v = ytVideoId) (videos st) of
        Some found \<Rightarrow> setStatus (vr_id found) ''processing'' st
      | None \<Rightarrow>
          st\<lparr>videos := videos st
                @ [\<lparr>vr_id = next_id st, vr_channel_id = channelDbId,
                    vr_youtube_id = vi_id videoInfo, vr_title = vi_title videoInfo,
                    vr_status = ''processing''\<rparr>],
              next_id := Suc (next_id st)\<rparr>)"



definition entry :: "log_entry \<Rightarrow> string \<times> string" where
  "entry l = (log_step l, log_status l)"

text \<open>
  The store's constraints on tags: no two \<^verbatim>\<open>tags\<close> rows with the same name, no two
  \<^verbatim>\<open>video_tags\<close> rows for the same pair.
\<close>

definition tagInv :: "store \<Rightarrow> bool" where
  "tagInv st = (distinct (map tag_name (tags st)) \<and> distinct (video_tags st))"

text \<open>
  A tag name is linked to a video when the \<^verbatim>\<open>tags\<close> row of that name has a
  \<^verbatim>\<open>video_tags\<close> row with the video. The names the loop reaches are those before the
  first element that is not a string.
\<close>

definition linked :: "nat \<Rightarrow> string \<Rightarrow> store \<Rightarrow> bool" where
  "linked videoDbId name st =
     (case find (\<lambda>t. tag_name t = name) (tags st) of
        Some t \<Rightarrow> (videoDbId, tag_id t) \<in> set (video_tags st)
      | None \<Rightarrow> False)"

fun reached :: "json_value list \<Rightarrow> string list" where
  "reached [] = []"
| "reached (JNull # ts) = []"
| "reached (JOther # ts) = []"
| "reached (JString tagName # ts) = toLowerCase tagName # reached ts"

text \<open>An empty store and a world for the concrete instances below.\<close>

definition emptyStore :: store where
  "emptyStore = \<lparr>videos = [], transcripts = [], tags = [], video_tags = [], ingestion_logs = [], next_id = 0\<rparr>"

definition okWorld :: "llm_env \<Rightarrow> world" where
  "okWorld l =
     \<lparr>w_getVideo = Returns (Some \<lparr>vi_id = ''yt1'', vi_title = ''Update''\<rparr>),
      w_captions = Returns (Some [\<lparr>seg_text = ''hello'', seg_offset = 0, seg_duration = 5\<rparr>]),
      w_whisper = audioEnv 1000,
      w_llm = l\<rparr>"

definition okLlm :: "json_value list \<Rightarrow> llm_env" where
  "okLlm ts = \<lparr>clean_call = Returns ''Hello.'', summary_call = Returns ''greeting'',
               tags_call = Returns (TagArray ts), tags_rejects_first = False\<rparr>"

definition failingLlm :: llm_env where
  "failingLlm = \<lparr>clean_call = Returns ''Hello.'', summary_call = Throws ''Error: 429'',
                 tags_call = Returns (TagArray [JString ''cardano'']), tags_rejects_first = False\<rparr>"


text \<open>
  A store in which the video has failed before and already has a transcript row, as a
  run leaves it when the tag loop throws after the transcript was written.
\<close>

definition retryStore :: store where
  "retryStore =
     \<lparr>videos = [\<lparr>vr_id = 0, vr_channel_id = 7, vr_youtube_id = ''yt1'', vr_title = ''Update'',
                  vr_status = ''failed''\<rparr>],
      transcripts = [\<lparr>t_id = 1, t_video_id = 0, t_raw_text = ''OLD RAW'', t_cleaned_text = ''OLD RAW'',
                      t_summary = None, t_source = ''extractor'', t_processing_status = ''completed''\<rparr>],
      tags = [], video_tags = [], ingestion_logs = [], next_id = 2\<rparr>"

section \<open>Text normalizer: \<^verbatim>\<open>cleanTranscriptText\<close>\<close>

text \<open>
  \<^verbatim>\<open>s.replace(/pat/g, rep)\<close> for a pattern that is a literal string: the matches are
  found from left to right, and the search goes on after each match.
\<close>

function replaceAll :: "string \<Rightarrow> string \<Rightarrow> string \<Rightarrow> string" where
  "replaceAll pat rep [] = []"
| "replaceAll pat rep (c # cs) =
     (if pat \<noteq> [] \<and> take (length pat) (c # cs) = pat
      then rep @ replaceAll pat rep (drop (length pat) (c # cs))
      else c # replaceAll pat rep cs)"
  by pat_completeness auto
termination
  by (relation "measure (\<lambda>(pat, rep, s). length s)") auto

declare replaceAll.simps [simp del]

text \<open>The eleven replacements of the entity decoding, in the order of the source.\<close>

definition decodeEntities :: "string \<Rightarrow> string" where
  "decodeEntities s =
     replaceAll ''&nbsp;'' '' ''
       (replaceAll ''&gt;'' ''>''
         (replaceAll ''&lt;'' ''<''
           (replaceAll ''&amp;'' ''&''
             (replaceAll ''&quot;'' [CHR 0x22]
               (replaceAll ''&#39;'' [CHR 0x27]
                 (replaceAll ''&amp;gt;'' ''>''
                   (replaceAll ''&amp;lt;'' ''<''
                     (replaceAll ''&amp;amp;'' ''&''
                       (replaceAll ''&amp;quot;'' [CHR 0x22]
                         (replaceAll ''&amp;#39;'' [CHR 0x27] s))))))))))"

text \<open>The word characters of \<^verbatim>\<open>\b\<close> and \<^verbatim>\<open>\w\<close>: letters, digits and the underscore.\<close>

definition is_word :: "char \<Rightarrow> bool" where
  "is_word c =
     (let n = (of_char c :: nat)
      in (48 \<le> n \<and> n \<le> 57) \<or> (65 \<le> n \<and> n \<le> 90) \<or> n = 95 \<or> (97 \<le> n \<and> n \<le> 122))"

text \<open>\<^verbatim>\<open>\b\<close> after a word character: the text ends or goes on with a non-word character.\<close>

definition word_ends :: "string \<Rightarrow> bool" where
  "word_ends rest = (case rest of [] \<Rightarrow> True | c # cs \<Rightarrow> \<not> is_word c)"

text \<open>How many characters \<^verbatim>\<open>[,.]?\<close> takes.\<close>

definition opt_punct :: "string \<Rightarrow> nat" where
  "opt_punct rest = (case rest of [] \<Rightarrow> 0 | c # cs \<Rightarrow> if c = CHR '','' \<or> c = CHR ''.'' then 1 else 0)"

text \<open>
  \<^verbatim>\<open>s.replace(re, '')\<close> for a global expression that begins with \<^verbatim>\<open>\b\<close> and a
  letter. The matcher tells, at a position where a word may begin, how long the match is
  (one less than its length, a match having at least one character). \<open>prevWord\<close> says
  whether the character before the position, in the original text, is a word character.
\<close>

function gsub :: "(string \<Rightarrow> nat option) \<Rightarrow> bool \<Rightarrow> string \<Rightarrow> string" where
  "gsub m prevWord [] = []"
| "gsub m prevWord (c # cs) =
     (case (if prevWord then None else m (c # cs)) of
        Some k \<Rightarrow> gsub m (is_word (last (take (Suc k) (c # cs)))) (drop (Suc k) (c # cs))
      | None \<Rightarrow> c # gsub m (is_word c) cs)"
  by pat_completeness auto
termination
  by (relation "measure (\<lambda>(m, p, s). length s)") auto

declare gsub.simps [simp del]

text \<open>\<^verbatim>\<open>/\b(um|uh|er|ah)\b[,.]?\s*/gi\<close>.\<close>

definition match_filler :: "string \<Rightarrow> nat option" where
  "match_filler s =
     (if toLowerCase (take 2 s) \<in> set [''um'', ''uh'', ''er'', ''ah''] \<and> word_ends (drop 2 s)
      then (let p = opt_punct (drop 2 s);
                w = length (takeWhile is_space (drop (2 + p) s))
            in Some (1 + p + w))
      else None)"

text \<open>\<^verbatim>\<open>/\byou know[,.]?\s*/gi\<close>: no word boundary after \<^verbatim>\<open>know\<close>.\<close>

definition match_you_know :: "string \<Rightarrow> nat option" where
  "match_you_know s =
     (if toLowerCase (take 8 s) = ''you know''
      then (let p = opt_punct (drop 8 s);
                w = length (takeWhile is_space (drop (8 + p) s))
            in Some (7 + p + w))
      else None)"

text \<open>
  The lookahead \<^verbatim>\<open>(?=\b(um|uh|I|we|they|he|she|it|you|so|and|but|the|a|an)\b)\<close> after
  white space: one of the words, as a whole word, comes next.
\<close>

definition like_follows :: "string \<Rightarrow> bool" where
  "like_follows rest =
     list_ex (\<lambda>alt. toLowerCase (take (length alt) rest) = alt \<and> word_ends (drop (length alt) rest))
       [''um'', ''uh'', ''i'', ''we'', ''they'', ''he'', ''she'', ''it'', ''you'', ''so'', ''and'',
        ''but'', ''the'', ''a'', ''an'']"

text \<open>\<^verbatim>\<open>/\blike\b[,.]?\s+(?=...)/gi\<close>.\<close>

definition match_like :: "string \<Rightarrow> nat option" where
  "match_like s =
     (if toLowerCase (take 4 s) = ''like'' \<and> word_ends (drop 4 s)
      then (let p = opt_punct (drop 4 s);
                w = length (takeWhile is_space (drop (4 + p) s))
            in if 1 \<le> w \<and> like_follows (drop (4 + p + w) s) then Some (3 + p + w) else None)
      else None)"

definition removeFillerWords :: "string \<Rightarrow> string" where
  "removeFillerWords s = gsub match_like False (gsub match_you_know False (gsub match_filler False s))"

text \<open>
  \<^verbatim>\<open>s.match(/[^.!?]+[.!?]+\s*/g)\<close>: a run of characters that end no sentence, the
  terminators after it and the white space after those. A terminator that follows no
  such run is passed over, and so is a last run that no terminator ends.
\<close>

definition is_terminator :: "char \<Rightarrow> bool" where
  "is_terminator c = (c = CHR ''.'' \<or> c = CHR ''!'' \<or> c = CHR ''?'')"

function matchSentences :: "string \<Rightarrow> string list" where
  "matchSentences [] = []"
| "matchSentences (c # cs) =
     (if is_terminator c then matchSentences cs
      else if dropWhile (\<lambda>x. \<not> is_terminator x) cs = [] then []
      else take (length (c # cs)
                  - length (dropWhile is_space (dropWhile is_terminator (dropWhile (\<lambda>x. \<not> is_terminator x) cs))))
             (c # cs)
           # matchSentences (dropWhile is_space (dropWhile is_terminator (dropWhile (\<lambda>x. \<not> is_terminator x) cs))))"
  by pat_completeness auto
termination
proof (relation "measure length")
  fix c :: char and cs :: string
  have "length (dropWhile is_space (dropWhile is_terminator (dropWhile (\<lambda>x. \<not> is_terminator x) cs)))
        \<le> length (dropWhile is_terminator (dropWhile (\<lambda>x. \<not> is_terminator x) cs))"
    by (rule length_dropWhile_le)
  also have "\<dots> \<le> length (dropWhile (\<lambda>x. \<not> is_terminator x) cs)"
    by (rule length_dropWhile_le)
  also have "\<dots> \<le> length cs"
    by (rule length_dropWhile_le)
  finally show "(dropWhile is_space (dropWhile is_terminator (dropWhile (\<lambda>x. \<not> is_terminator x) cs)), c # cs)
      \<in> measure length"
    by simp
qed auto

declare matchSentences.simps [simp del]

text \<open>The loop \<^verbatim>\<open>for (let i = 0; i < sentences.length; i += n)\<close> with its slices.\<close>

function slices :: "nat \<Rightarrow> 'a list \<Rightarrow> 'a list list" where
  "slices n xs = (if xs = [] \<or> n = 0 then [] else take n xs # slices n (drop n xs))"
  by pat_completeness auto
termination
  by (relation "measure (\<lambda>(n, xs). length xs)") auto

declare slices.simps [simp del]

text \<open>\<^verbatim>\<open>xs.join(sep)\<close>.\<close>

fun join_with :: "string \<Rightarrow> string list \<Rightarrow> string" where
  "join_with sep [] = []"
| "join_with sep [x] = x"
| "join_with sep (x # y # ys) = x @ sep @ join_with sep (y # ys)"

text \<open>The options, with the defaults the destructuring gives them.\<close>

record clean_options =
  removeFillers :: bool
  addParagraphs :: bool
  sentencesPerParagraph :: int

definition defaultOptions :: clean_options where
  "defaultOptions = \<lparr>removeFillers = True, addParagraphs = True, sentencesPerParagraph = 4\<rparr>"

definition addParagraphBreaks :: "nat \<Rightarrow> string \<Rightarrow> string" where
  "addParagraphBreaks n cleaned =
     (let sentences = (if matchSentences cleaned = [] then [cleaned] else matchSentences cleaned);
          paragraphs = filter (\<lambda>paragraph. paragraph \<noteq> [])
                         (map (\<lambda>group. trim (concat group)) (slices n sentences))
      in join_with [CHR 0x0A, CHR 0x0A] paragraphs)"

definition cleanTranscriptText :: "string \<Rightarrow> clean_options \<Rightarrow> string" where
  "cleanTranscriptText s options =
     (let decoded = decodeEntities s;
          unfilled = (if removeFillers options then removeFillerWords decoded else decoded);
          cleaned = trim (collapse_ws unfilled)
      in if addParagraphs options \<and> sentencesPerParagraph options > 0
         then addParagraphBreaks (nat (sentencesPerParagraph options)) cleaned
         else cleaned)"

section \<open>Properties of the merge\<close>

lemma dedupLoop_keepFirst:
  "dedupLoop vs seen acc = acc @ keepFirst (filter (\<lambda>w. v_id w \<notin> seen) vs)"
proof (induction vs arbitrary: seen acc)
  case Nil
  then show ?case by simp
next
  case (Cons v vs)
  show ?case
  proof (cases "v_id v \<in> seen")
    case True
    then show ?thesis using Cons.IH [of seen acc] by simp
  next
    case False
    have "filter (\<lambda>w. v_id w \<notin> insert (v_id v) seen) vs
          = filter (\<lambda>w. v_id w \<noteq> v_id v) (filter (\<lambda>w. v_id w \<notin> seen) vs)"
      by (auto intro: filter_cong)
    with False show ?thesis using Cons.IH [of "insert (v_id v) seen" "acc @ [v]"] by simp
  qed
qed

lemma set_keepFirst: "v_id ` set (keepFirst vs) = v_id ` set vs"
proof (induction vs rule: keepFirst.induct)
  case 1
  then show ?case by simp
next
  case (2 v vs)
  have "v_id ` set vs \<subseteq> insert (v_id v) (v_id ` set (filter (\<lambda>w. v_id w \<noteq> v_id v) vs))"
    by auto
  moreover have "v_id ` set (filter (\<lambda>w. v_id w \<noteq> v_id v) vs) \<subseteq> v_id ` set vs"
    by auto
  ultimately show ?case using 2 by auto
qed

lemma distinct_keepFirst: "distinct (map v_id (keepFirst vs))"
proof (induction vs rule: keepFirst.induct)
  case 1
  then show ?case by simp
next
  case (2 v vs)
  have "v_id v \<notin> v_id ` set (keepFirst (filter (\<lambda>w. v_id w \<noteq> v_id v) vs))"
    unfolding set_keepFirst by auto
  with 2 show ?case by simp
qed

lemma keepFirst_append:
  "keepFirst (xs @ ys) = keepFirst xs @ keepFirst (filter (\<lambda>w. v_id w \<notin> v_id ` set xs) ys)"
proof (induction xs arbitrary: ys rule: keepFirst.induct)
  case 1
  then show ?case by simp
next
  case (2 v vs)
  let ?F = "filter (\<lambda>w. v_id w \<noteq> v_id v)"
  have "keepFirst (?F vs @ ?F ys)
        = keepFirst (?F vs) @ keepFirst (filter (\<lambda>w. v_id w \<notin> v_id ` set (?F vs)) (?F ys))"
    using 2 by blast
  moreover have "filter (\<lambda>w. v_id w \<notin> v_id ` set (?F vs)) (?F ys)
        = filter (\<lambda>w. v_id w \<notin> v_id ` set (v # vs)) ys"
    by (auto intro!: filter_cong)
  ultimately show ?case by simp
qed

lemma length_keepFirst: "length (keepFirst vs) \<le> length vs"
proof (induction vs rule: keepFirst.induct)
  case 1 then show ?case by simp
next
  case (2 v vs)
  have "length (filter (\<lambda>w. v_id w \<noteq> v_id v) vs) \<le> length vs" by simp
  with 2 show ?case by (simp add: le_trans)
qed

lemma count_list_distinct: "distinct xs \<Longrightarrow> x \<in> set xs \<Longrightarrow> count_list xs x = 1"
  by (induction xs) (auto simp: count_list_0_iff)

lemma hybridSearch_keepFirst:
  "hybridSearch sr kw tag fetch limit = take limit (keepFirst (tag @ semanticVideos sr fetch @ kw))"
  by (simp add: hybridSearch_def mergeResults_def dedupLoop_keepFirst)

lemma mergeResults_tag_first:
  "mergeResults tag sem kw limit
   = take limit (keepFirst tag @ keepFirst (filter (\<lambda>w. v_id w \<notin> v_id ` set tag) (sem @ kw)))"
  by (simp add: mergeResults_def dedupLoop_keepFirst keepFirst_append)

lemma mergeResults_drop_semantic_hit:
  assumes "x \<in> v_id ` set tag"
  shows "mergeResults tag (filter (\<lambda>w. v_id w \<noteq> x) sem) kw limit = mergeResults tag sem kw limit"
proof -
  have "filter (\<lambda>w. v_id w \<notin> v_id ` set tag) (filter (\<lambda>w. v_id w \<noteq> x) sem)
        = filter (\<lambda>w. v_id w \<notin> v_id ` set tag) sem"
    using assms by (auto intro!: filter_cong)
  then show ?thesis by (simp add: mergeResults_tag_first)
qed

lemma mergeResults_tag_once:
  assumes "x \<in> v_id ` set tag" and "length tag \<le> limit"
  shows "count_list (map v_id (mergeResults tag sem kw limit)) x = 1"
proof -
  let ?B = "keepFirst (filter (\<lambda>w. v_id w \<notin> v_id ` set tag) (sem @ kw))"
  have len: "length (keepFirst tag) \<le> limit"
    using assms(2) length_keepFirst [of tag] by simp
  have res: "mergeResults tag sem kw limit = keepFirst tag @ take (limit - length (keepFirst tag)) ?B"
    using len by (simp add: mergeResults_tag_first)
  have "x \<notin> v_id ` set ?B"
  proof
    assume "x \<in> v_id ` set ?B"
    then have "x \<in> v_id ` set (filter (\<lambda>w. v_id w \<notin> v_id ` set tag) (sem @ kw))"
      by (simp only: set_keepFirst)
    then obtain w :: video where "x = v_id w" and "v_id w \<notin> v_id ` set tag"
      by auto
    with assms(1) show False by simp
  qed
  then have "x \<notin> set (map v_id (take (limit - length (keepFirst tag)) ?B))"
    using set_take_subset [of "limit - length (keepFirst tag)" ?B] by auto
  then have "count_list (map v_id (take (limit - length (keepFirst tag)) ?B)) x = 0"
    by (rule count_notin)
  moreover have "count_list (map v_id (keepFirst tag)) x = 1"
    using assms(1) by (intro count_list_distinct distinct_keepFirst) (simp add: set_keepFirst)
  ultimately show ?thesis by (simp add: res)
qed

lemma distinct_mergeResults: "distinct (map v_id (mergeResults tag sem kw limit))"
  by (simp add: mergeResults_def dedupLoop_keepFirst distinct_keepFirst take_map [symmetric] del: take_map)
text \<open>
  Claim C1. For every query and limit, the result of hybrid search is the concatenation
  tag, semantic, lexical with only the first occurrence of every video id kept, cut to
  \<open>limit\<close> entries; no id occurs twice. For a video id among the tag results the result
  is the one obtained when the semantic strategy has no hit for that id, and, the tag
  strategy returning at most \<open>limit\<close> rows, the id occurs exactly once.
\<close>

theorem hybridSearch_merge:
  "hybridSearch sr kw tag fetch limit = take limit (keepFirst (tag @ semanticVideos sr fetch @ kw))
   \<and> distinct (map v_id (hybridSearch sr kw tag fetch limit))
   \<and> (x \<in> v_id ` set tag \<longrightarrow>
          hybridSearch sr kw tag fetch limit
          = mergeResults tag (filter (\<lambda>w. v_id w \<noteq> x) (semanticVideos sr fetch)) kw limit)
   \<and> (x \<in> v_id ` set tag \<and> length tag \<le> limit \<longrightarrow>
          count_list (map v_id (hybridSearch sr kw tag fetch limit)) x = 1)"
proof (intro conjI impI)
  show "hybridSearch sr kw tag fetch limit = take limit (keepFirst (tag @ semanticVideos sr fetch @ kw))"
    by (rule hybridSearch_keepFirst)
  show "distinct (map v_id (hybridSearch sr kw tag fetch limit))"
    unfolding hybridSearch_def by (rule distinct_mergeResults)
next
  assume "x \<in> v_id ` set tag"
  then show "hybridSearch sr kw tag fetch limit
      = mergeResults tag (filter (\<lambda>w. v_id w \<noteq> x) (semanticVideos sr fetch)) kw limit"
    unfolding hybridSearch_def by (simp add: mergeResults_drop_semantic_hit)
next
  assume "x \<in> v_id ` set tag \<and> length tag \<le> limit"
  then show "count_list (map v_id (hybridSearch sr kw tag fetch limit)) x = 1"
    unfolding hybridSearch_def by (simp add: mergeResults_tag_once)
qed

theorem hybridSearch_merge_witness:
  "''V1'' \<in> v_id ` set [row ''V1'' ''a''] \<and> length [row ''V1'' ''a''] \<le> (20::nat)
   \<and> hybridSearch [hit ''c1'' ''V2'' ''best'', hit ''c2'' ''V1'' ''other'', hit ''c3'' ''V2'' ''worse'']
         [row ''V3'' ''c'', row ''V2'' ''b''] [row ''V1'' ''a'']
         (\<lambda>ids. if ids = [''V2'', ''V1''] then Some [row ''V1'' ''a'', row ''V2'' ''b''] else None) 20
       = [row ''V1'' ''a'', (row ''V2'' ''b'')\<lparr>cleaned_text := Some ''best''\<rparr>, row ''V3'' ''c'']
   \<and> count_list (map v_id
         (hybridSearch [hit ''c1'' ''V2'' ''best'', hit ''c2'' ''V1'' ''other'', hit ''c3'' ''V2'' ''worse'']
         [row ''V3'' ''c'', row ''V2'' ''b''] [row ''V1'' ''a'']
         (\<lambda>ids. if ids = [''V2'', ''V1''] then Some [row ''V1'' ''a'', row ''V2'' ''b''] else None) 20)) ''V1'' = 1"
  using hybridSearch_merge [of "[hit ''c1'' ''V2'' ''best'', hit ''c2'' ''V1'' ''other'', hit ''c3'' ''V2'' ''worse'']"
         "[row ''V3'' ''c'', row ''V2'' ''b'']" "[row ''V1'' ''a'']"
         "(\<lambda>ids. if ids = [''V2'', ''V1''] then Some [row ''V1'' ''a'', row ''V2'' ''b''] else None)" 20 "''V1''"]
  by (simp add: semanticVideos_def attachBestChunk_def row_def hit_def)

text \<open>
  The scenario of the specification: a tag hit on V1, a semantic hit on V2, no lexical
  hit give \<open>[V1, V2]\<close>.
\<close>

lemma hybridSearch_governance_scenario:
  "hybridSearch [hit ''c1'' ''V2'' ''chunk''] [] [row ''V1'' ''a'']
     (\<lambda>ids. if ids = [''V2''] then Some [row ''V2'' ''b''] else None) 20
   = [row ''V1'' ''a'', (row ''V2'' ''b'')\<lparr>cleaned_text := Some ''chunk''\<rparr>]"
  by (simp add: hybridSearch_def mergeResults_def semanticVideos_def attachBestChunk_def row_def hit_def)

section \<open>Properties of the lexical strategy\<close>

lemma sortByPublished_sorted:
  "sorted_wrt (\<lambda>a b. publishedTime b \<le> publishedTime a) (sortByPublished vs)"
proof -
  have "sorted (map (\<lambda>v. - publishedTime v) (sortByPublished vs))"
    unfolding sortByPublished_def by (rule sorted_sort_key)
  then show ?thesis by (simp add: sorted_map)
qed

lemma sorted_wrt_slice: "sorted_wrt P xs \<Longrightarrow> sorted_wrt P (take n (drop m xs))"
  by (simp add: sorted_wrt_drop sorted_wrt_take)

lemma set_slice: "set (take n (drop m xs)) \<subseteq> set xs"
  using set_take_subset [of n "drop m xs"] set_drop_subset [of m xs] by blast

lemma length_map_set: "length (map_set m k v) \<le> Suc (length m)"
  by (induction m) auto

lemma length_uniqueById_aux:
  "length (foldl (\<lambda>m v. map_set m (v_id v) v) m vs) \<le> length m + length vs"
proof (induction vs arbitrary: m)
  case Nil
  then show ?case by simp
next
  case (Cons v vs)
  have "length (foldl (\<lambda>m v. map_set m (v_id v) v) (map_set m (v_id v) v) vs)
        \<le> length (map_set m (v_id v) v) + length vs"
    by (rule Cons.IH)
  also have "\<dots> \<le> Suc (length m) + length vs"
    using length_map_set [of m "v_id v" v] by simp
  finally show ?case by simp
qed

lemma length_uniqueById: "length (uniqueById vs) \<le> length vs"
  using length_uniqueById_aux [of "[]" vs] by (simp add: uniqueById_def)

lemma map_of_map_set: "map_of (map_set m k v) = (map_of m)(k \<mapsto> v)"
  by (induction m) auto

lemma keys_map_set: "fst ` set (map_set m k v) = insert k (fst ` set m)"
proof (induction m)
  case Nil
  then show ?case by simp
next
  case (Cons p m)
  obtain k' v' where p: "p = (k', v')" by (cases p)
  show ?case
  proof (cases "k' = k")
    case True
    then show ?thesis using p by simp
  next
    case False
    then show ?thesis using p Cons.IH by (simp add: insert_commute)
  qed
qed

lemma find_SomeD: "find P xs = Some x \<Longrightarrow> x \<in> set xs \<and> P x"
  by (induction xs) (auto split: if_splits)

lemma distinct_map_set: "distinct (map fst m) \<Longrightarrow> distinct (map fst (map_set m k v))"
proof (induction m)
  case Nil
  then show ?case by simp
next
  case (Cons p m)
  obtain k' v' where p: "p = (k', v')" by (cases p)
  show ?case
  proof (cases "k' = k")
    case True
    then show ?thesis using Cons.prems p by simp
  next
    case False
    have "k' \<notin> fst ` set (map_set m k v)"
      using Cons.prems p False by (simp add: keys_map_set)
    then show ?thesis using Cons p False by simp
  qed
qed

lemma distinct_keys_fold:
  "distinct (map fst m) \<Longrightarrow> distinct (map fst (foldl (\<lambda>m v. map_set m (v_id v) v) m vs))"
  by (induction vs arbitrary: m) (simp_all add: distinct_map_set)

lemma keys_fold:
  "fst ` set (foldl (\<lambda>m v. map_set m (v_id v) v) m vs) = fst ` set m \<union> v_id ` set vs"
  by (induction vs arbitrary: m) (auto simp: keys_map_set)

lemma find_append_case:
  "find P (xs @ ys) = (case find P xs of Some x \<Rightarrow> Some x | None \<Rightarrow> find P ys)"
  by (induction xs) auto

lemma map_of_fold:
  "map_of (foldl (\<lambda>m v. map_set m (v_id v) v) m vs) k
   = (case find (\<lambda>w. v_id w = k) (rev vs) of Some w \<Rightarrow> Some w | None \<Rightarrow> map_of m k)"
proof (induction vs arbitrary: m)
  case Nil
  then show ?case by simp
next
  case (Cons v vs)
  have "map_of (foldl (\<lambda>m v. map_set m (v_id v) v) (map_set m (v_id v) v) vs) k
        = (case find (\<lambda>w. v_id w = k) (rev vs) of
             Some w \<Rightarrow> Some w
           | None \<Rightarrow> map_of (map_set m (v_id v) v) k)"
    by (rule Cons.IH)
  then show ?case
    by (simp add: find_append_case map_of_map_set split: option.splits)
qed

lemma uniqueById_last:
  assumes "v \<in> set (uniqueById vs)"
  shows "find (\<lambda>w. v_id w = v_id v) (rev vs) = Some v"
proof -
  let ?M = "foldl (\<lambda>m v. map_set m (v_id v) v) [] vs"
  from assms obtain k where kv: "(k, v) \<in> set ?M"
    by (auto simp: uniqueById_def)
  have "distinct (map fst ?M)"
    by (rule distinct_keys_fold) simp
  then have "map_of ?M k = Some v"
    using kv by (rule map_of_is_SomeI)
  then have f: "find (\<lambda>w. v_id w = k) (rev vs) = Some v"
    by (simp add: map_of_fold split: option.splits)
  then have "v_id v = k"
    using find_SomeD by fastforce
  with f show ?thesis by simp
qed

lemma uniqueById_subset: "set (uniqueById vs) \<subseteq> set vs"
proof
  fix v assume "v \<in> set (uniqueById vs)"
  then have "find (\<lambda>w. v_id w = v_id v) (rev vs) = Some v"
    by (rule uniqueById_last)
  then have "v \<in> set (rev vs)"
    using find_SomeD by fastforce
  then show "v \<in> set vs" by simp
qed

lemma uniqueById_ids:
  "map v_id (uniqueById vs) = map fst (foldl (\<lambda>m v. map_set m (v_id v) v) [] vs)"
proof -
  let ?M = "foldl (\<lambda>m v. map_set m (v_id v) v) [] vs"
  have "v_id (snd p) = fst p" if "p \<in> set ?M" for p
  proof -
    obtain k v where p: "p = (k, v)" by (cases p)
    have "distinct (map fst ?M)"
      by (rule distinct_keys_fold) simp
    with that p have "map_of ?M k = Some v"
      by (intro map_of_is_SomeI) simp_all
    then have "find (\<lambda>w. v_id w = k) (rev vs) = Some v"
      by (simp add: map_of_fold split: option.splits)
    then have "v_id v = k"
      using find_SomeD by fastforce
    then show ?thesis using p by simp
  qed
  then show ?thesis by (simp add: uniqueById_def)
qed

lemma distinct_uniqueById: "distinct (map v_id (uniqueById vs))"
  unfolding uniqueById_ids by (rule distinct_keys_fold) simp

lemma ids_uniqueById: "v_id ` set (uniqueById vs) = v_id ` set vs"
proof -
  have "set (map v_id (uniqueById vs)) = v_id ` set vs"
    unfolding uniqueById_ids using keys_fold [of "[]" vs] by simp
  then show ?thesis by simp
qed

lemma searchVideos_all:
  "searchVideos vr tr (length (storeRows vr tr)) 0 = sortByPublished (uniqueById (storeRows vr tr))"
  unfolding searchVideos_def Let_def storeRows_def [symmetric]
  using length_uniqueById [of "storeRows vr tr"] by (simp add: sortByPublished_def)

lemma searchVideos_slice:
  "searchVideos vr tr limit offset
   = take limit (drop offset (searchVideos vr tr (length (storeRows vr tr)) 0))"
  unfolding searchVideos_all by (simp add: searchVideos_def storeRows_def)

lemma distinct_map_slice: "distinct (map f xs) \<Longrightarrow> distinct (map f (take n (drop m xs)))"
  by (simp add: take_map [symmetric] drop_map [symmetric] del: take_map drop_map)

text \<open>
  Claim C10, as amended. The lexical strategy returns its videos, deduplicated by id,
  by publish time, most recent first (a video with no publish time counts as time 0).
  Whatever order the store returned the rows in: the result is sorted by descending
  publish time; no id occurs twice; every row returned is a row the store returned, and
  of the rows with its id the last one; with offset 0 and a limit that cuts nothing
  every id the store returned is there; and the result for a limit and an offset is
  that slice of the uncut result.
\<close>

theorem searchVideos_by_date:
  "sorted_wrt (\<lambda>a b. publishedTime b \<le> publishedTime a) (searchVideos vr tr limit offset)
   \<and> distinct (map v_id (searchVideos vr tr limit offset))
   \<and> (\<forall>v \<in> set (searchVideos vr tr limit offset).
         find (\<lambda>w. v_id w = v_id v) (rev (storeRows vr tr)) = Some v)
   \<and> set (searchVideos vr tr limit offset) \<subseteq> set (storeRows vr tr)
   \<and> v_id ` set (searchVideos vr tr (length (storeRows vr tr)) 0) = v_id ` set (storeRows vr tr)
   \<and> searchVideos vr tr limit offset
       = take limit (drop offset (searchVideos vr tr (length (storeRows vr tr)) 0))"
proof (intro conjI ballI)
  let ?U = "uniqueById (storeRows vr tr)"
  have sub: "set (searchVideos vr tr limit offset) \<subseteq> set ?U"
  proof -
    have "set (searchVideos vr tr limit offset) \<subseteq> set (sortByPublished ?U)"
      unfolding searchVideos_def Let_def storeRows_def by (rule set_slice)
    then show ?thesis by (simp add: sortByPublished_def)
  qed
  show "sorted_wrt (\<lambda>a b. publishedTime b \<le> publishedTime a) (searchVideos vr tr limit offset)"
    unfolding searchVideos_def Let_def by (intro sorted_wrt_slice sortByPublished_sorted)
  have "distinct (map v_id (sortByPublished ?U))"
    using distinct_uniqueById [of "storeRows vr tr"]
    by (simp add: distinct_map sortByPublished_def)
  then show "distinct (map v_id (searchVideos vr tr limit offset))"
    unfolding searchVideos_slice [of vr tr limit offset] searchVideos_all
    by (rule distinct_map_slice)
  show "set (searchVideos vr tr limit offset) \<subseteq> set (storeRows vr tr)"
    using sub uniqueById_subset [of "storeRows vr tr"] by blast
  show "v_id ` set (searchVideos vr tr (length (storeRows vr tr)) 0) = v_id ` set (storeRows vr tr)"
    unfolding searchVideos_all by (simp add: sortByPublished_def ids_uniqueById)
  show "searchVideos vr tr limit offset
       = take limit (drop offset (searchVideos vr tr (length (storeRows vr tr)) 0))"
    by (rule searchVideos_slice)
  fix v assume "v \<in> set (searchVideos vr tr limit offset)"
  with sub have "v \<in> set ?U" by blast
  then show "find (\<lambda>w. v_id w = v_id v) (rev (storeRows vr tr)) = Some v"
    by (rule uniqueById_last)
qed

theorem searchVideos_by_date_witness:
  "searchVideos (Some [dated ''A'' 1, dated ''B'' 5]) (Some [ftsHit (dated ''A'' 1), ftsHit (dated ''C'' 3)]) 2 0
     = [dated ''B'' 5, mapTranscriptResult (ftsHit (dated ''C'' 3))]
   \<and> searchVideos (Some [dated ''A'' 1, dated ''B'' 5]) (Some [ftsHit (dated ''A'' 1), ftsHit (dated ''C'' 3)]) 4 0
     = [dated ''B'' 5, mapTranscriptResult (ftsHit (dated ''C'' 3)), mapTranscriptResult (ftsHit (dated ''A'' 1))]
   \<and> find (\<lambda>w. v_id w = ''A'')
        (rev (storeRows (Some [dated ''A'' 1, dated ''B'' 5]) (Some [ftsHit (dated ''A'' 1), ftsHit (dated ''C'' 3)])))
     = Some (mapTranscriptResult (ftsHit (dated ''A'' 1)))
   \<and> distinct (map v_id
        (searchVideos (Some [dated ''A'' 1, dated ''B'' 5]) (Some [ftsHit (dated ''A'' 1), ftsHit (dated ''C'' 3)]) 4 0))"
  using searchVideos_by_date [of "Some [dated ''A'' 1, dated ''B'' 5]"
      "Some [ftsHit (dated ''A'' 1), ftsHit (dated ''C'' 3)]" 2 0]
    searchVideos_by_date [of "Some [dated ''A'' 1, dated ''B'' 5]"
      "Some [ftsHit (dated ''A'' 1), ftsHit (dated ''C'' 3)]" 4 0]
  by (simp add: storeRows_def searchVideos_def uniqueById_def sortByPublished_def publishedTime_def
      mapTranscriptResult_def ftsHit_def dated_def)

text \<open>
  Claim C10 as stated fails: the store returns the full-text hit A before B, and the
  result lists B before A because B was published later.
\<close>

theorem searchVideos_not_store_order:
  "storeRows (Some []) (Some [ftsHit (dated ''A'' 1), ftsHit (dated ''B'' 2)])
     = [mapTranscriptResult (ftsHit (dated ''A'' 1)), mapTranscriptResult (ftsHit (dated ''B'' 2))]
   \<and> searchVideos (Some []) (Some [ftsHit (dated ''A'' 1), ftsHit (dated ''B'' 2)]) 20 0
     = [mapTranscriptResult (ftsHit (dated ''B'' 2)), mapTranscriptResult (ftsHit (dated ''A'' 1))]
   \<and> mapTranscriptResult (ftsHit (dated ''A'' 1)) \<noteq> mapTranscriptResult (ftsHit (dated ''B'' 2))"
  by (simp add: storeRows_def searchVideos_def uniqueById_def sortByPublished_def publishedTime_def
      mapTranscriptResult_def ftsHit_def dated_def)

section \<open>Properties of the acquisition\<close>

lemma fetchTranscript_source: "fetchTranscript p = Some r \<Longrightarrow> tr_source r = ''extractor''"
  by (auto simp: fetchTranscript_def split: outcome.splits option.splits if_splits)

lemma whisper_source: "wr_result (transcribeWithWhisper env) = Some r \<Longrightarrow> tr_source r = ''whisper''"
  by (auto simp: transcribeWithWhisper_def Let_def split: outcome.splits option.splits if_splits)

text \<open>
  Claim C5, as amended. When the caption provider gives no segments (it throws, answers
  nothing or answers an empty list) and the audio transcription succeeds, the acquired
  result is the transcription's, and its source is the fallback's tag \<^verbatim>\<open>whisper\<close>,
  never the primary's \<^verbatim>\<open>extractor\<close>.
\<close>

theorem acquire_fallback_source:
  assumes "p = Throws e \<or> p = Returns None \<or> p = Returns (Some [])"
    and "wr_result (transcribeWithWhisper env) = Some r"
  shows "acquireTranscript p env = Some r \<and> tr_source r = ''whisper'' \<and> tr_source r \<noteq> ''extractor''"
proof -
  from assms(1) have "fetchTranscript p = None"
    by (auto simp: fetchTranscript_def)
  then have "acquireTranscript p env = Some r"
    using assms(2) by (simp add: acquireTranscript_def)
  moreover have "tr_source r = ''whisper''"
    using assms(2) by (rule whisper_source)
  ultimately show ?thesis by simp
qed

theorem acquire_fallback_source_witness:
  "acquireTranscript (Returns (Some [])) (audioEnv 1000)
     = Some \<lparr>tr_text = ''hello world'', tr_segments = [], tr_source = ''whisper''\<rparr>
   \<and> tr_source \<lparr>tr_text = ''hello world'', tr_segments = [], tr_source = ''whisper''\<rparr> \<noteq> ''extractor''"
  using acquire_fallback_source [of "Returns (Some [])" "''e''" "audioEnv 1000"
      "\<lparr>tr_text = ''hello world'', tr_segments = [], tr_source = ''whisper''\<rparr>"]
  by (simp add: transcribeWithWhisper_def audioEnv_def tooLarge_def)

text \<open>
  Claim C5 as stated fails on the tag's name: with no caption segments and a successful
  audio transcription the source written is \<^verbatim>\<open>whisper\<close>, not \<^verbatim>\<open>whisper-fallback\<close>.
\<close>

theorem acquire_fallback_tag_counterexample:
  "map_option tr_source (acquireTranscript (Returns (Some [])) (audioEnv 1000)) = Some ''whisper''
   \<and> map_option tr_source (acquireTranscript (Returns (Some [])) (audioEnv 1000))
       \<noteq> Some ''whisper-fallback''"
  by (simp add: acquireTranscript_def fetchTranscript_def transcribeWithWhisper_def audioEnv_def tooLarge_def)

text \<open>
  Claim C6. For every downloaded audio file of more than 24 MB (24 * 1024 * 1024 bytes),
  the audio transcription returns null without calling the speech-to-text provider and
  leaves no scratch file; the acquisition that fell back to it finds nothing.
\<close>

theorem whisper_oversize:
  assumes "ytdlp_available env" and "download_returns env"
    and "audio_file env = Some size_bytes" and "size_bytes > 24 * 1024 * 1024"
  shows "transcribeWithWhisper env = \<lparr>wr_result = None, provider_invoked = False, scratch_file = None\<rparr>
     \<and> acquireTranscript (Throws e) env = None"
  using assms by (simp add: transcribeWithWhisper_def tooLarge_def acquireTranscript_def fetchTranscript_def)

theorem whisper_oversize_witness:
  "transcribeWithWhisper (audioEnv (30 * 1024 * 1024))
     = \<lparr>wr_result = None, provider_invoked = False, scratch_file = None\<rparr>
   \<and> acquireTranscript (Throws ''no captions'') (audioEnv (30 * 1024 * 1024)) = None"
  using whisper_oversize [of "audioEnv (30 * 1024 * 1024)" "30 * 1024 * 1024" "''no captions''"]
  by (simp add: audioEnv_def)

section \<open>Properties of the chunker\<close>

lemma lastIndexFrom_bounds:
  "- 1 \<le> found \<Longrightarrow> found < int i \<Longrightarrow>
   - 1 \<le> lastIndexFrom s c i found \<and> lastIndexFrom s c i found < int (i + length s)"
proof (induction s arbitrary: i found)
  case Nil
  then show ?case by simp
next
  case (Cons x xs)
  let ?f = "if x = c then int i else found"
  have "- 1 \<le> ?f" and "?f < int (Suc i)"
    using Cons.prems by auto
  then have "- 1 \<le> lastIndexFrom xs c (Suc i) ?f
      \<and> lastIndexFrom xs c (Suc i) ?f < int (Suc i + length xs)"
    by (rule Cons.IH)
  then show ?case by simp
qed

lemma lastIndexOf_bounds: "- 1 \<le> lastIndexOf s c \<and> lastIndexOf s c < int (length s)"
  using lastIndexFrom_bounds [of "- 1" 0 s c] by (simp add: lastIndexOf_def)

lemma length_js_slice: "length (js_slice s a b) \<le> b - a"
  by (simp add: js_slice_def)

lemma chunkEnd_lower: "start + 802 \<le> chunkEnd n start"
  by (auto simp: chunkEnd_def Let_def CHUNK_SIZE_def)

lemma chunkEnd_upper: "chunkEnd n start \<le> start + 1050"
proof -
  have "lastIndexOf (js_slice n start (start + 1000 + 50)) CHR ''.'' < 1050"
    using lastIndexOf_bounds [of "js_slice n start (start + 1000 + 50)" "CHR ''.''"]
      length_js_slice [of n start "start + 1000 + 50"] by linarith
  then show ?thesis
    by (auto simp: chunkEnd_def Let_def CHUNK_SIZE_def)
qed

lemma cursor_advances: "start < chunkEnd n start - CHUNK_OVERLAP"
  using chunkEnd_lower [of start n] by (simp add: CHUNK_OVERLAP_def)


lemma splitLoop_windows:
  "splitLoop n start chunks = Some (chunks @ map trim (splitWindows n start))"
proof (induction n start arbitrary: chunks rule: splitWindows.induct)
  case (1 n start)
  show ?case
  proof (cases "start < length n")
    case True
    then show ?thesis
      using "1.IH" [OF True, of "chunks @ [trim (js_slice n start (chunkEnd n start))]"]
      by (subst splitLoop.simps, subst splitWindows.simps) simp
  next
    case False
    then show ?thesis
      by (subst splitLoop.simps, subst splitWindows.simps) simp
  qed
qed

lemma length_trim: "length (trim s) \<le> length s"
proof -
  have "length (trim s) = length (dropWhile is_space (rev (dropWhile is_space s)))"
    by (simp add: trim_def)
  also have "\<dots> \<le> length (rev (dropWhile is_space s))"
    by (rule length_dropWhile_le)
  also have "\<dots> \<le> length s"
    by (simp add: length_dropWhile_le)
  finally show ?thesis .
qed

lemma length_window: "w \<in> set (splitWindows n start) \<Longrightarrow> length w \<le> 1050"
proof (induction n start rule: splitWindows.induct)
  case (1 n start)
  show ?case
  proof (cases "start < length n")
    case True
    have "length (js_slice n start (chunkEnd n start)) \<le> 1050"
      using length_js_slice [of n start "chunkEnd n start"] chunkEnd_upper [of n start] by simp
    moreover have "w \<in> set (splitWindows n (chunkEnd n start - CHUNK_OVERLAP)) \<Longrightarrow> length w \<le> 1050"
      using "1.IH" [OF True] .
    moreover have "splitWindows n start = js_slice n start (chunkEnd n start)
           # splitWindows n (chunkEnd n start - CHUNK_OVERLAP)"
      using True by (subst splitWindows.simps) simp
    ultimately show ?thesis
      using "1.prems" by auto
  next
    case False
    then have "splitWindows n start = []"
      by (subst splitWindows.simps) simp
    with "1.prems" show ?thesis by simp
  qed
qed

lemma removeOverlap_tail:
  "CHUNK_OVERLAP \<le> e \<Longrightarrow>
   concat (map (drop CHUNK_OVERLAP) (splitWindows n (e - CHUNK_OVERLAP))) = drop e n"
proof (induction n "e - CHUNK_OVERLAP" arbitrary: e rule: splitWindows.induct)
  case (1 n e)
  let ?s = "e - CHUNK_OVERLAP"
  show ?case
  proof (cases "?s < length n")
    case True
    let ?e' = "chunkEnd n ?s"
    have ge: "e \<le> ?e'" and ov: "CHUNK_OVERLAP \<le> ?e'"
      using chunkEnd_lower [of ?s n] "1.prems" by (simp_all add: CHUNK_OVERLAP_def)
    have IH: "concat (map (drop CHUNK_OVERLAP) (splitWindows n (?e' - CHUNK_OVERLAP))) = drop ?e' n"
      using "1.hyps" [OF True refl ov] .
    have "drop CHUNK_OVERLAP (js_slice n ?s ?e') = js_slice n e ?e'"
      using "1.prems" ge by (simp add: js_slice_def drop_take add.commute)
    moreover have "js_slice n e ?e' @ drop ?e' n = drop e n"
    proof -
      have "take (?e' - e) (drop e n) @ drop (?e' - e) (drop e n) = drop e n"
        by (rule append_take_drop_id)
      moreover have "drop (?e' - e) (drop e n) = drop ?e' n"
        using ge by simp
      ultimately show ?thesis by (simp add: js_slice_def)
    qed
    ultimately show ?thesis
      using True IH by (subst splitWindows.simps) simp
  next
    case False
    then have "length n \<le> e" by simp
    with False show ?thesis
      by (subst splitWindows.simps) simp
  qed
qed

lemma collapse_ws_nospace:
  "\<forall>c \<in> set xs. \<not> is_space c \<Longrightarrow> collapse_ws (xs @ ys) = xs @ collapse_ws ys"
  by (induction xs) auto

lemma dropWhile_hd: "xs \<noteq> [] \<Longrightarrow> \<not> P (hd xs) \<Longrightarrow> dropWhile P xs = xs"
  by (cases xs) auto

lemma trim_trailing:
  assumes "xs \<noteq> []" and "\<not> is_space (hd xs)" and "\<not> is_space (last xs)"
    and "\<forall>c \<in> set ys. is_space c"
  shows "trim (xs @ ys) = xs"
proof -
  have "dropWhile is_space (xs @ ys) = xs @ ys"
    using assms(1,2) by (intro dropWhile_hd) auto
  moreover have "dropWhile is_space (rev ys @ rev xs) = dropWhile is_space (rev xs)"
    using assms(4) by (intro dropWhile_append2) auto
  moreover have "dropWhile is_space (rev xs) = rev xs"
    using assms(1,3) by (intro dropWhile_hd) (auto simp: hd_rev)
  ultimately show ?thesis by (simp add: trim_def)
qed

lemma lastIndexFrom_absent: "c \<notin> set s \<Longrightarrow> lastIndexFrom s c i found = found"
  by (induction s arbitrary: i) auto

lemma lastIndexOf_absent: "c \<notin> set s \<Longrightarrow> lastIndexOf s c = - 1"
  by (simp add: lastIndexOf_def lastIndexFrom_absent)

lemma longText_normal: "normalizeText longText = longText"
proof -
  have "collapse_ws longText = replicate 999 CHR ''a'' @ collapse_ws '' b''"
    unfolding longText_def by (rule collapse_ws_nospace) (simp add: is_space_def)
  then have "collapse_ws longText = longText"
    by (simp add: longText_def is_space_def)
  moreover have "trim (longText @ []) = longText"
    by (rule trim_trailing) (simp_all add: longText_def is_space_def)
  ultimately show ?thesis by (simp add: normalizeText_def)
qed

lemma longText_end0: "chunkEnd longText 0 = 1000"
proof -
  have "CHR ''.'' \<notin> set (js_slice longText 0 1050)"
    by (simp add: js_slice_def longText_def)
  then have "lastIndexOf (js_slice longText 0 1050) CHR ''.'' = - 1"
    by (rule lastIndexOf_absent)
  then show ?thesis
    by (simp add: chunkEnd_def CHUNK_SIZE_def)
qed

lemma longText_end1: "chunkEnd longText 900 = 1900"
  by (simp add: chunkEnd_def CHUNK_SIZE_def longText_def)

lemma longText_windows:
  "splitWindows longText 0 = [replicate 999 CHR ''a'' @ '' '', replicate 99 CHR ''a'' @ '' b'']"
proof -
  have len: "length longText = 1001" by (simp add: longText_def)
  have "splitWindows longText 1800 = []"
    by (subst splitWindows.simps) (simp add: len)
  then have "splitWindows longText 900 = [js_slice longText 900 1900]"
    by (subst splitWindows.simps) (simp add: len longText_end1 CHUNK_OVERLAP_def)
  then have "splitWindows longText 0 = [js_slice longText 0 1000, js_slice longText 900 1900]"
    by (subst splitWindows.simps) (simp add: len longText_end0 CHUNK_OVERLAP_def)
  moreover have "js_slice longText 0 1000 = replicate 999 CHR ''a'' @ '' ''"
    by (simp add: js_slice_def longText_def)
  moreover have "js_slice longText 900 1900 = replicate 99 CHR ''a'' @ '' b''"
    by (simp add: js_slice_def longText_def)
  ultimately show ?thesis by simp
qed

lemma longText_chunks:
  "splitText longText = Some [replicate 999 CHR ''a'', replicate 99 CHR ''a'' @ '' b'']"
proof -
  have "trim (replicate 999 CHR ''a'' @ '' '') = replicate 999 CHR ''a''"
    by (rule trim_trailing) (simp_all add: is_space_def)
  moreover have "trim ((replicate 99 CHR ''a'' @ '' b'') @ []) = replicate 99 CHR ''a'' @ '' b''"
    by (rule trim_trailing) (simp_all add: is_space_def)
  moreover have "longText \<noteq> []" by (simp add: longText_def)
  ultimately show ?thesis
    by (simp add: splitText_def longText_normal splitLoop_windows longText_windows)
qed

text \<open>
  Claim C3 as stated fails: the 1001 characters are cut into two chunks, the first loses
  its final space to \<^verbatim>\<open>trim\<close>, and the chunks with the overlap removed give the text
  without that space.
\<close>

theorem splitText_no_reconstruction:
  "splitText longText = Some [replicate 999 CHR ''a'', replicate 99 CHR ''a'' @ '' b'']
   \<and> removeOverlap [replicate 999 CHR ''a'', replicate 99 CHR ''a'' @ '' b''] = replicate 999 CHR ''a'' @ ''b''
   \<and> normalizeText longText = replicate 999 CHR ''a'' @ '' b''
   \<and> removeOverlap [replicate 999 CHR ''a'', replicate 99 CHR ''a'' @ '' b''] \<noteq> normalizeText longText"
  by (simp add: longText_chunks longText_normal CHUNK_OVERLAP_def) (simp add: longText_def)

lemma removeOverlap_windows: "removeOverlap (splitWindows n 0) = n"
proof (cases "0 < length n")
  case True
  have ov: "CHUNK_OVERLAP \<le> chunkEnd n 0"
    using chunkEnd_lower [of 0 n] by (simp add: CHUNK_OVERLAP_def)
  have "splitWindows n 0 = js_slice n 0 (chunkEnd n 0) # splitWindows n (chunkEnd n 0 - CHUNK_OVERLAP)"
    using True by (subst splitWindows.simps) simp
  then show ?thesis
    using removeOverlap_tail [OF ov, of n] by (simp add: js_slice_def)
next
  case False
  then show ?thesis by (subst splitWindows.simps) simp
qed

lemma splitText_eq: "splitText s = Some (map trim (splitWindows (normalizeText s) 0))"
proof (cases "s = []")
  case True
  have "splitWindows [] 0 = []" by (subst splitWindows.simps) simp
  with True show ?thesis by (simp add: splitText_def normalizeText_def trim_def)
next
  case False
  then show ?thesis by (simp add: splitText_def splitLoop_windows)
qed

text \<open>
  Claim C3, as amended. For all text, every chunk has at most \<open>CHUNK_SIZE + 50\<close>
  characters (chunk size plus lookahead), every chunk is the \<^verbatim>\<open>trim\<close> of a window of the
  normalized text, and the untrimmed windows, concatenated in order with the overlap
  removed from each successor, reconstruct the normalized text exactly.
\<close>

theorem splitText_windows:
  "splitText s = Some (map trim (splitWindows (normalizeText s) 0))
   \<and> (\<forall>c \<in> set (map trim (splitWindows (normalizeText s) 0)). length c \<le> CHUNK_SIZE + 50)
   \<and> removeOverlap (splitWindows (normalizeText s) 0) = normalizeText s"
proof (intro conjI ballI)
  show "splitText s = Some (map trim (splitWindows (normalizeText s) 0))"
    by (rule splitText_eq)
  show "removeOverlap (splitWindows (normalizeText s) 0) = normalizeText s"
    by (rule removeOverlap_windows)
next
  fix c assume "c \<in> set (map trim (splitWindows (normalizeText s) 0))"
  then obtain w where w: "w \<in> set (splitWindows (normalizeText s) 0)" and c: "c = trim w"
    by auto
  have "length c \<le> length w"
    unfolding c by (rule length_trim)
  also have "\<dots> \<le> 1050"
    using w by (rule length_window)
  finally show "length c \<le> CHUNK_SIZE + 50"
    by (simp add: CHUNK_SIZE_def)
qed

theorem splitText_windows_witness:
  "splitText longText = Some [replicate 999 CHR ''a'', replicate 99 CHR ''a'' @ '' b'']
   \<and> length (replicate 999 CHR ''a'') \<le> CHUNK_SIZE + 50
   \<and> length (replicate 99 CHR ''a'' @ '' b'') \<le> CHUNK_SIZE + 50
   \<and> removeOverlap [replicate 999 CHR ''a'' @ '' '', replicate 99 CHR ''a'' @ '' b''] = longText"
proof -
  have "trim (replicate 999 CHR ''a'' @ '' '') = replicate 999 CHR ''a''"
    by (rule trim_trailing) (simp_all add: is_space_def)
  moreover have "trim ((replicate 99 CHR ''a'' @ '' b'') @ []) = replicate 99 CHR ''a'' @ '' b''"
    by (rule trim_trailing) (simp_all add: is_space_def)
  ultimately show ?thesis
    using splitText_windows [of longText]
    by (simp add: longText_normal longText_windows)
qed

text \<open>
  Claim C4. For every input text \<^verbatim>\<open>splitText\<close> returns, and so does its loop from
  every cursor position; the overlap is below the chunk size and the cursor strictly
  advances at every step; the empty input yields no chunk.
\<close>

theorem splitText_terminates:
  "(\<exists>chunks. splitText s = Some chunks)
   \<and> (\<exists>chunks'. splitLoop n start chunks = Some chunks')
   \<and> start < chunkEnd n start - CHUNK_OVERLAP
   \<and> CHUNK_OVERLAP < CHUNK_SIZE
   \<and> splitText [] = Some []"
proof (intro conjI)
  show "\<exists>chunks. splitText s = Some chunks"
    by (simp add: splitText_eq)
  show "\<exists>chunks'. splitLoop n start chunks = Some chunks'"
    by (simp add: splitLoop_windows)
  show "start < chunkEnd n start - CHUNK_OVERLAP"
    by (rule cursor_advances)
  show "CHUNK_OVERLAP < CHUNK_SIZE"
    by (simp add: CHUNK_OVERLAP_def CHUNK_SIZE_def)
  show "splitText [] = Some []"
    by (simp add: splitText_def)
qed

section \<open>Properties of the orchestrator\<close>

lemma upsertTag_inv:
  assumes "tagInv st" and "upsertTag name st = (st', t)"
  shows "tagInv st'"
proof (cases "find (\<lambda>t. tag_name t = name) (tags st)")
  case None
  then have "name \<notin> set (map tag_name (tags st))"
    by (auto simp: find_None_iff)
  with assms None show ?thesis
    by (auto simp: upsertTag_def tagInv_def Let_def)
next
  case (Some a)
  with assms show ?thesis by (simp add: upsertTag_def)
qed

lemma upsertVideoTag_inv: "tagInv st \<Longrightarrow> tagInv (upsertVideoTag v t st)"
  by (simp add: upsertVideoTag_def tagInv_def)

lemma linkTag_inv: "tagInv st \<Longrightarrow> tagInv (linkTag v name st)"
  by (auto simp: linkTag_def split: prod.splits intro: upsertVideoTag_inv upsertTag_inv)

lemma saveTags_inv: "tagInv st \<Longrightarrow> tagInv (fst (saveTags v ts st))"
  by (induction v ts st rule: saveTags.induct) (simp_all add: linkTag_inv)

lemma tagInv_log [simp]: "tagInv (log v s x d st) = tagInv st"
  by (simp add: log_def tagInv_def)

lemma tagInv_setStatus [simp]: "tagInv (setStatus v s st) = tagInv st"
  by (simp add: setStatus_def tagInv_def)

lemma tagInv_upsertTranscript [simp]: "tagInv (upsertTranscript v r c s src st) = tagInv st"
  by (simp add: upsertTranscript_def tagInv_def)

lemma saveAndComplete_inv: "tagInv st \<Longrightarrow> tagInv (snd (saveAndComplete v r c s ts st))"
  using saveTags_inv [of "upsertTranscript v (tr_text r) c (if s = [] then None else Some s) (tr_source r) st" v ts]
  by (auto simp: saveAndComplete_def Let_def split: prod.splits option.splits)

lemma processVideo_inv: "tagInv st \<Longrightarrow> tagInv (snd (processVideo w v skip st))"
  by (auto simp: processVideo_def Let_def saveAndComplete_inv split: option.splits outcome.splits)

lemma ingestVideo_inv: "tagInv st \<Longrightarrow> tagInv (snd (ingestVideo w ch yt skip st))"
proof -
  assume inv: "tagInv st"
  have a: "tagInv (setStatus i ''processing'' st)" for i
    using inv by simp
  have b: "tagInv (st\<lparr>videos := vs, next_id := n\<rparr>)" for vs n
    using inv by (simp add: tagInv_def)
  show ?thesis
    using inv processVideo_inv [OF a] processVideo_inv [OF b]
    by (auto simp: ingestVideo_def Let_def split: option.splits outcome.splits)
qed

lemma find_append_Some: "find P xs = Some x \<Longrightarrow> find P (xs @ ys) = Some x"
  by (induction xs) (auto split: if_splits)

lemma find_append_None: "find P xs = None \<Longrightarrow> find P (xs @ ys) = find P ys"
  by (induction xs) (auto split: if_splits)

lemma linkTag_linked: "linked v name (linkTag v name st)"
  by (auto simp: linked_def linkTag_def upsertTag_def upsertVideoTag_def Let_def find_append_None
      split: option.splits)

lemma linkTag_mono: "linked v m st \<Longrightarrow> linked v m (linkTag v name st)"
  by (auto simp: linked_def linkTag_def upsertTag_def upsertVideoTag_def Let_def find_append_Some
      split: option.splits)

lemma linkTag_again: "linked v name st \<Longrightarrow> linkTag v name st = st"
  by (auto simp: linked_def linkTag_def upsertTag_def upsertVideoTag_def split: option.splits)

lemma saveTags_mono: "linked v m st \<Longrightarrow> linked v m (fst (saveTags v ts st))"
  by (induction v ts st rule: saveTags.induct) (simp_all add: linkTag_mono)

lemma saveTags_reached: "n \<in> set (reached ts) \<Longrightarrow> linked v n (fst (saveTags v ts st))"
proof (induction v ts st rule: saveTags.induct)
  case (1 v st)
  then show ?case by simp
next
  case (2 v ts st)
  then show ?case by simp
next
  case (3 v ts st)
  then show ?case by simp
next
  case (4 v tagName ts st)
  show ?case
  proof (cases "n = toLowerCase tagName")
    case True
    then show ?thesis
      using saveTags_mono [OF linkTag_linked, of v n ts st] by simp
  next
    case False
    with "4.prems" have "n \<in> set (reached ts)" by simp
    then show ?thesis using "4.IH" by simp
  qed
qed

lemma saveTags_all_linked:
  "\<forall>n \<in> set (reached ts). linked v n st \<Longrightarrow> fst (saveTags v ts st) = st"
  by (induction v ts st rule: saveTags.induct) (simp_all add: linkTag_again)

lemma saveTags_idem: "fst (saveTags v ts (fst (saveTags v ts st))) = fst (saveTags v ts st)"
  by (rule saveTags_all_linked) (simp add: saveTags_reached)


lemma logs_setStatus [simp]: "ingestion_logs (setStatus v s st) = ingestion_logs st"
  by (simp add: setStatus_def)

lemma logs_upsertTranscript [simp]: "ingestion_logs (upsertTranscript v r c s src st) = ingestion_logs st"
  by (simp add: upsertTranscript_def)

lemma logs_linkTag [simp]: "ingestion_logs (linkTag v n st) = ingestion_logs st"
  by (simp add: linkTag_def upsertTag_def upsertVideoTag_def Let_def split: option.splits)


lemma logs_log [simp]:
  "map entry (ingestion_logs (log v s x d st)) = map entry (ingestion_logs st) @ [(s, x)]"
  by (simp add: log_def entry_def)




lemma processTranscript_throws:
  assumes "clean_call l = Throws e \<or> summary_call l = Throws e \<or> tags_call l = Throws e"
  shows "\<exists>e'. processTranscript l = Throws e'"
  using assms
  by (auto simp: processTranscript_def generateTags_def split: outcome.splits tag_reply.splits)

lemma find_map_same:
  "(\<And>x. P (f x) = P x) \<Longrightarrow> find P (map f xs) = map_option f (find P xs)"
  by (induction xs) auto

lemma saveAndComplete_no_tags:
  "saveAndComplete v r c s [] st
   = (Success, setStatus v ''completed'' (upsertTranscript v (tr_text r) c (if s = [] then None else Some s) (tr_source r) st))"
  by (simp add: saveAndComplete_def)

lemma processVideo_llm_throws:
  assumes "acquireTranscript (w_captions w) (w_whisper w) = Some r"
    and "processTranscript (w_llm w) = Throws e'"
  shows "processVideo w v False st
   = (Success, setStatus v ''completed'' (upsertTranscript v (tr_text r) (tr_text r) None (tr_source r)
       (log v ''llm_processing'' ''failed'' (Some (ErrorDetails e'))
         (log v ''llm_processing'' ''started'' None
           (log v ''fetch_transcript'' ''completed'' (Some (SourceDetails (tr_source r) (length (tr_text r))))
             (log v ''fetch_transcript'' ''started'' None st))))))"
  using assms by (simp add: processVideo_def Let_def saveAndComplete_no_tags)

lemma ingestVideo_enters:
  assumes "map_option vr_status (find (\<lambda>v. vr_youtube_id v = yt) (videos st)) \<noteq> Some ''completed''"
    and "w_getVideo w = Returns (Some info)" and "vi_id info = yt"
  shows "ingestVideo w ch yt skip st = processVideo w (videoDbIdOf yt st) skip (claimVideo info ch yt st)"
proof (cases "find (\<lambda>v. vr_youtube_id v = yt) (videos st)")
  case None
  then have "\<not> list_ex (\<lambda>v. vr_youtube_id v = vi_id info) (videos st)"
    using assms(3) by (auto simp: find_None_iff list_ex_iff)
  then show ?thesis
    using None assms by (simp add: ingestVideo_def videoDbIdOf_def claimVideo_def)
next
  case (Some found)
  then show ?thesis
    using assms by (simp add: ingestVideo_def videoDbIdOf_def claimVideo_def)
qed

lemma claimVideo_find:
  assumes "vi_id info = yt"
  shows "map_option vr_id (find (\<lambda>v. vr_youtube_id v = yt) (videos (claimVideo info ch yt st)))
         = Some (videoDbIdOf yt st)"
proof (cases "find (\<lambda>v. vr_youtube_id v = yt) (videos st)")
  case None
  then show ?thesis
    using assms by (simp add: find_append_None videoDbIdOf_def claimVideo_def)
next
  case (Some found)
  have "find (\<lambda>v. vr_youtube_id v = yt)
          (map (\<lambda>v. if vr_id v = vr_id found then v\<lparr>vr_status := ''processing''\<rparr> else v) (videos st))
        = map_option (\<lambda>v. if vr_id v = vr_id found then v\<lparr>vr_status := ''processing''\<rparr> else v)
            (find (\<lambda>v. vr_youtube_id v = yt) (videos st))"
    by (rule find_map_same) simp
  then show ?thesis
    using Some by (simp add: videoDbIdOf_def claimVideo_def setStatus_def)
qed

lemma claimVideo_fields [simp]:
  "transcripts (claimVideo info ch yt st) = transcripts st"
  "tags (claimVideo info ch yt st) = tags st"
  "video_tags (claimVideo info ch yt st) = video_tags st"
  "ingestion_logs (claimVideo info ch yt st) = ingestion_logs st"
  by (simp_all add: claimVideo_def setStatus_def split: option.splits)

lemma completed_status:
  assumes "map_option vr_id (find P (videos st)) = Some v"
    and "\<And>x s. P (x\<lparr>vr_status := s\<rparr>) = P x"
  shows "map_option vr_status (find P (videos (setStatus v ''completed'' st))) = Some ''completed''"
proof -
  let ?f = "\<lambda>x. if vr_id x = v then x\<lparr>vr_status := ''completed''\<rparr> else x"
  have "find P (map ?f (videos st)) = map_option ?f (find P (videos st))"
    by (rule find_map_same) (simp add: assms(2))
  then show ?thesis
    using assms(1) by (auto simp: setStatus_def)
qed

text \<open>A complete run on an empty store, with two spellings of one tag.\<close>

lemma ingest_example:
  "ingestVideo (okWorld (okLlm [JString ''Cardano'', JString ''cardano''])) 7 ''yt1'' False emptyStore
   = (Success,
      \<lparr>videos = [\<lparr>vr_id = 0, vr_channel_id = 7, vr_youtube_id = ''yt1'', vr_title = ''Update'', vr_status = ''completed''\<rparr>],
       transcripts = [\<lparr>t_id = 1, t_video_id = 0, t_raw_text = ''hello'', t_cleaned_text = ''Hello.'',
                       t_summary = Some ''greeting'', t_source = ''extractor'', t_processing_status = ''completed''\<rparr>],
       tags = [\<lparr>tag_id = 2, tag_name = ''cardano''\<rparr>],
       video_tags = [(0, 2)],
       ingestion_logs =
         [\<lparr>log_video_id = 0, log_step = ''fetch_transcript'', log_status = ''started'', log_details = None\<rparr>,
          \<lparr>log_video_id = 0, log_step = ''fetch_transcript'', log_status = ''completed'',
            log_details = Some (SourceDetails ''extractor'' 5)\<rparr>,
          \<lparr>log_video_id = 0, log_step = ''llm_processing'', log_status = ''started'', log_details = None\<rparr>,
          \<lparr>log_video_id = 0, log_step = ''llm_processing'', log_status = ''completed'',
            log_details = Some (TagsDetails [JString ''Cardano'', JString ''cardano''])\<rparr>],
       next_id = 3\<rparr>)"
  by code_simp

text \<open>
  Claim C9. On a store that satisfies its constraints, a run of the orchestrator, a
  second run after it, and the tag loop for any list of derived tags leave no two tag
  rows with the same name and no two join rows for the same pair; running the tag loop
  again on its own result, or linking one tag twice, changes nothing.
\<close>

theorem tag_upsert_idempotent:
  assumes "tagInv st"
  shows "tagInv (snd (ingestVideo w ch yt skip st))
     \<and> tagInv (snd (ingestVideo w' ch yt skip' (snd (ingestVideo w ch yt skip st))))
     \<and> tagInv (fst (saveTags v ts st))
     \<and> fst (saveTags v ts (fst (saveTags v ts st))) = fst (saveTags v ts st)
     \<and> linkTag v name (linkTag v name st) = linkTag v name st"
proof (intro conjI)
  show 1: "tagInv (snd (ingestVideo w ch yt skip st))"
    using assms by (rule ingestVideo_inv)
  show "tagInv (snd (ingestVideo w' ch yt skip' (snd (ingestVideo w ch yt skip st))))"
    using 1 by (rule ingestVideo_inv)
  show "tagInv (fst (saveTags v ts st))"
    using assms by (rule saveTags_inv)
  show "fst (saveTags v ts (fst (saveTags v ts st))) = fst (saveTags v ts st)"
    by (rule saveTags_idem)
  show "linkTag v name (linkTag v name st) = linkTag v name st"
    by (rule linkTag_again) (rule linkTag_linked)
qed

theorem tag_upsert_idempotent_witness:
  "tagInv emptyStore
   \<and> tags (snd (ingestVideo (okWorld (okLlm [JString ''Cardano'', JString ''cardano''])) 7 ''yt1'' False emptyStore))
       = [\<lparr>tag_id = 2, tag_name = ''cardano''\<rparr>]
   \<and> video_tags (snd (ingestVideo (okWorld (okLlm [JString ''Cardano'', JString ''cardano''])) 7 ''yt1'' False emptyStore))
       = [(0, 2)]
   \<and> tagInv (snd (ingestVideo (okWorld (okLlm [JString ''Cardano'', JString ''cardano''])) 7 ''yt1'' False emptyStore))"
proof -
  have e: "tagInv emptyStore"
    by (simp add: tagInv_def emptyStore_def)
  show ?thesis
    using e tag_upsert_idempotent [OF e, of "okWorld (okLlm [JString ''Cardano'', JString ''cardano''])" 7 "''yt1''" False]
    by (simp add: ingest_example)
qed





text \<open>
  What holds of a failing enrichment call. When the video is not yet completed, its
  metadata and its transcript have been obtained, the video has no transcript row yet
  and any of the three enrichment calls (cleaning, summary, tagging) throws, the run is
  not aborted: it logs \<^verbatim>\<open>llm_processing/failed\<close>, stores the transcript row with the
  raw text as cleaned text and no summary, links no tag, marks the video
  \<^verbatim>\<open>completed\<close> and returns success.
\<close>

lemma enrichment_failure_degrades:
  assumes nc: "map_option vr_status (find (\<lambda>v. vr_youtube_id v = yt) (videos st)) \<noteq> Some ''completed''"
    and gv: "w_getVideo w = Returns (Some info)" and vid: "vi_id info = yt"
    and acq: "acquireTranscript (w_captions w) (w_whisper w) = Some r"
    and fails: "clean_call (w_llm w) = Throws e \<or> summary_call (w_llm w) = Throws e
                \<or> tags_call (w_llm w) = Throws e"
    and fresh: "\<not> list_ex (\<lambda>t. t_video_id t = videoDbIdOf yt st) (transcripts st)"
  shows "fst (ingestVideo w ch yt False st) = Success
     \<and> map_option vr_status
          (find (\<lambda>v. vr_youtube_id v = yt) (videos (snd (ingestVideo w ch yt False st)))) = Some ''completed''
     \<and> map entry (ingestion_logs (snd (ingestVideo w ch yt False st)))
         = map entry (ingestion_logs st)
           @ [(''fetch_transcript'', ''started''), (''fetch_transcript'', ''completed''),
              (''llm_processing'', ''started''), (''llm_processing'', ''failed'')]
     \<and> transcripts (snd (ingestVideo w ch yt False st))
         = transcripts st
           @ [\<lparr>t_id = next_id (claimVideo info ch yt st), t_video_id = videoDbIdOf yt st, t_raw_text = tr_text r,
               t_cleaned_text = tr_text r, t_summary = None, t_source = tr_source r,
               t_processing_status = ''completed''\<rparr>]
     \<and> tags (snd (ingestVideo w ch yt False st)) = tags st
     \<and> video_tags (snd (ingestVideo w ch yt False st)) = video_tags st"
proof -
  let ?v = "videoDbIdOf yt st"
  obtain e' where pt: "processTranscript (w_llm w) = Throws e'"
    using processTranscript_throws [OF fails] by blast
  let ?st4 = "log ?v ''llm_processing'' ''failed'' (Some (ErrorDetails e'))
         (log ?v ''llm_processing'' ''started'' None
           (log ?v ''fetch_transcript'' ''completed'' (Some (SourceDetails (tr_source r) (length (tr_text r))))
             (log ?v ''fetch_transcript'' ''started'' None (claimVideo info ch yt st))))"
  let ?st5 = "upsertTranscript ?v (tr_text r) (tr_text r) None (tr_source r) ?st4"
  have run: "ingestVideo w ch yt False st = (Success, setStatus ?v ''completed'' ?st5)"
    by (simp only: ingestVideo_enters [OF nc gv vid] processVideo_llm_throws [OF acq pt])
  have vs: "videos ?st5 = videos (claimVideo info ch yt st)"
    by (simp add: upsertTranscript_def log_def)
  have "map_option vr_id (find (\<lambda>v. vr_youtube_id v = yt) (videos ?st5)) = Some ?v"
    unfolding vs using vid by (rule claimVideo_find)
  then have status: "map_option vr_status
      (find (\<lambda>v. vr_youtube_id v = yt) (videos (setStatus ?v ''completed'' ?st5))) = Some ''completed''"
    by (rule completed_status) simp
  have logs: "map entry (ingestion_logs (setStatus ?v ''completed'' ?st5))
      = map entry (ingestion_logs st)
           @ [(''fetch_transcript'', ''started''), (''fetch_transcript'', ''completed''),
              (''llm_processing'', ''started''), (''llm_processing'', ''failed'')]"
    by simp
  have tr4: "transcripts ?st4 = transcripts st"
    by (simp add: log_def)
  have nx: "next_id ?st4 = next_id (claimVideo info ch yt st)"
    by (simp add: log_def)
  have trs: "transcripts (setStatus ?v ''completed'' ?st5)
         = transcripts st
           @ [\<lparr>t_id = next_id (claimVideo info ch yt st), t_video_id = ?v, t_raw_text = tr_text r,
               t_cleaned_text = tr_text r, t_summary = None, t_source = tr_source r,
               t_processing_status = ''completed''\<rparr>]"
    using fresh by (simp add: setStatus_def upsertTranscript_def tr4 nx)
  have tg: "tags (setStatus ?v ''completed'' ?st5) = tags st"
    "video_tags (setStatus ?v ''completed'' ?st5) = video_tags st"
    by (simp_all add: setStatus_def upsertTranscript_def log_def)
  show ?thesis
    unfolding run snd_conv fst_conv using status logs trs tg by (intro conjI) (rule refl, assumption+)
qed
lemma ingest_failing_example:
  "ingestVideo (okWorld failingLlm) 7 ''yt1'' False emptyStore
   = (Success,
      \<lparr>videos = [\<lparr>vr_id = 0, vr_channel_id = 7, vr_youtube_id = ''yt1'', vr_title = ''Update'', vr_status = ''completed''\<rparr>],
       transcripts = [\<lparr>t_id = 1, t_video_id = 0, t_raw_text = ''hello'', t_cleaned_text = ''hello'',
                       t_summary = None, t_source = ''extractor'', t_processing_status = ''completed''\<rparr>],
       tags = [],
       video_tags = [],
       ingestion_logs =
         [\<lparr>log_video_id = 0, log_step = ''fetch_transcript'', log_status = ''started'', log_details = None\<rparr>,
          \<lparr>log_video_id = 0, log_step = ''fetch_transcript'', log_status = ''completed'',
            log_details = Some (SourceDetails ''extractor'' 5)\<rparr>,
          \<lparr>log_video_id = 0, log_step = ''llm_processing'', log_status = ''started'', log_details = None\<rparr>,
          \<lparr>log_video_id = 0, log_step = ''llm_processing'', log_status = ''failed'',
            log_details = Some (ErrorDetails ''Error: 429'')\<rparr>],
       next_id = 2\<rparr>)"
  by code_simp

lemma enrichment_failure_degrades_example:
  "map_option vr_status (find (\<lambda>v. vr_youtube_id v = ''yt1'') (videos emptyStore)) \<noteq> Some ''completed''
   \<and> summary_call (w_llm (okWorld failingLlm)) = Throws ''Error: 429''
   \<and> fst (ingestVideo (okWorld failingLlm) 7 ''yt1'' False emptyStore) = Success
   \<and> map vr_status (videos (snd (ingestVideo (okWorld failingLlm) 7 ''yt1'' False emptyStore))) = [''completed'']
   \<and> transcripts (snd (ingestVideo (okWorld failingLlm) 7 ''yt1'' False emptyStore))
       = [\<lparr>t_id = 1, t_video_id = 0, t_raw_text = ''hello'', t_cleaned_text = ''hello'',
           t_summary = None, t_source = ''extractor'', t_processing_status = ''completed''\<rparr>]
   \<and> tags (snd (ingestVideo (okWorld failingLlm) 7 ''yt1'' False emptyStore)) = []
   \<and> map entry (ingestion_logs (snd (ingestVideo (okWorld failingLlm) 7 ''yt1'' False emptyStore)))
       = [(''fetch_transcript'', ''started''), (''fetch_transcript'', ''completed''),
          (''llm_processing'', ''started''), (''llm_processing'', ''failed'')]"
proof -
  have nc: "map_option vr_status (find (\<lambda>v. vr_youtube_id v = ''yt1'') (videos emptyStore)) \<noteq> Some ''completed''"
    by (simp add: emptyStore_def)
  have gv: "w_getVideo (okWorld failingLlm) = Returns (Some \<lparr>vi_id = ''yt1'', vi_title = ''Update''\<rparr>)"
    by (simp add: okWorld_def)
  have vid: "vi_id \<lparr>vi_id = ''yt1'', vi_title = ''Update''\<rparr> = ''yt1''"
    by simp
  have acq: "acquireTranscript (w_captions (okWorld failingLlm)) (w_whisper (okWorld failingLlm))
      = Some \<lparr>tr_text = ''hello'', tr_segments = [\<lparr>seg_text = ''hello'', seg_offset = 0, seg_duration = 5\<rparr>],
              tr_source = ''extractor''\<rparr>"
    by (simp add: okWorld_def acquireTranscript_def fetchTranscript_def)
  have fails: "clean_call (w_llm (okWorld failingLlm)) = Throws ''Error: 429''
      \<or> summary_call (w_llm (okWorld failingLlm)) = Throws ''Error: 429''
      \<or> tags_call (w_llm (okWorld failingLlm)) = Throws ''Error: 429''"
    by (simp add: okWorld_def failingLlm_def)
  have fresh: "\<not> list_ex (\<lambda>t. t_video_id t = videoDbIdOf ''yt1'' emptyStore) (transcripts emptyStore)"
    by (simp add: emptyStore_def)
  have sc: "summary_call (w_llm (okWorld failingLlm)) = Throws ''Error: 429''"
    by (simp add: okWorld_def failingLlm_def)
  show ?thesis
    using enrichment_failure_degrades [OF nc gv vid acq fails fresh, of 7] nc sc
    by (simp add: ingest_failing_example entry_def)
qed

lemma ingest_retry_example:
  "ingestVideo (okWorld failingLlm) 7 ''yt1'' False retryStore
   = (Success,
      \<lparr>videos = [\<lparr>vr_id = 0, vr_channel_id = 7, vr_youtube_id = ''yt1'', vr_title = ''Update'', vr_status = ''completed''\<rparr>],
       transcripts = [\<lparr>t_id = 1, t_video_id = 0, t_raw_text = ''OLD RAW'', t_cleaned_text = ''OLD RAW'',
                       t_summary = None, t_source = ''extractor'', t_processing_status = ''completed''\<rparr>],
       tags = [],
       video_tags = [],
       ingestion_logs =
         [\<lparr>log_video_id = 0, log_step = ''fetch_transcript'', log_status = ''started'', log_details = None\<rparr>,
          \<lparr>log_video_id = 0, log_step = ''fetch_transcript'', log_status = ''completed'',
            log_details = Some (SourceDetails ''extractor'' 5)\<rparr>,
          \<lparr>log_video_id = 0, log_step = ''llm_processing'', log_status = ''started'', log_details = None\<rparr>,
          \<lparr>log_video_id = 0, log_step = ''llm_processing'', log_status = ''failed'',
            log_details = Some (ErrorDetails ''Error: 429'')\<rparr>],
       next_id = 2\<rparr>)"
  by code_simp

lemma ingest_bad_tag_example:
  "ingestVideo (okWorld (okLlm [JString ''cardano'', JOther])) 7 ''yt1'' False emptyStore
   = (Failed ''TypeError: tagName.toLowerCase is not a function'',
      \<lparr>videos = [\<lparr>vr_id = 0, vr_channel_id = 7, vr_youtube_id = ''yt1'', vr_title = ''Update'', vr_status = ''failed''\<rparr>],
       transcripts = [\<lparr>t_id = 1, t_video_id = 0, t_raw_text = ''hello'', t_cleaned_text = ''Hello.'',
                       t_summary = Some ''greeting'', t_source = ''extractor'', t_processing_status = ''completed''\<rparr>],
       tags = [\<lparr>tag_id = 2, tag_name = ''cardano''\<rparr>],
       video_tags = [(0, 2)],
       ingestion_logs =
         [\<lparr>log_video_id = 0, log_step = ''fetch_transcript'', log_status = ''started'', log_details = None\<rparr>,
          \<lparr>log_video_id = 0, log_step = ''fetch_transcript'', log_status = ''completed'',
            log_details = Some (SourceDetails ''extractor'' 5)\<rparr>,
          \<lparr>log_video_id = 0, log_step = ''llm_processing'', log_status = ''started'', log_details = None\<rparr>,
          \<lparr>log_video_id = 0, log_step = ''llm_processing'', log_status = ''completed'',
            log_details = Some (TagsDetails [JString ''cardano'', JOther])\<rparr>,
          \<lparr>log_video_id = 0, log_step = ''error'', log_status = ''failed'',
            log_details = Some (ErrorDetails ''TypeError: tagName.toLowerCase is not a function'')\<rparr>],
       next_id = 3\<rparr>)"
  by code_simp

text \<open>
  Claim C7 holds of the specification and fails on the code at two inputs. On a retry
  of a failed video that already has a transcript row, with the summary call throwing,
  the run returns success and marks the video \<^verbatim>\<open>completed\<close>, but the transcript
  write is rejected by the store and the old row stays, though the text acquired is
  another: the \<^verbatim>\<open>upsert\<close> on \<^verbatim>\<open>transcripts\<close> names no conflict target, unlike
  the one on \<^verbatim>\<open>tags\<close>. And when the tagging call answers an array holding an
  element that is not a string, the tag loop throws, the run is aborted and the video is
  marked \<^verbatim>\<open>failed\<close>.
\<close>

theorem enrichment_failure_divergence:
  "summary_call (w_llm (okWorld failingLlm)) = Throws ''Error: 429''
   \<and> map_option tr_text
        (acquireTranscript (w_captions (okWorld failingLlm)) (w_whisper (okWorld failingLlm)))
       = Some ''hello''
   \<and> fst (ingestVideo (okWorld failingLlm) 7 ''yt1'' False retryStore) = Success
   \<and> map vr_status (videos (snd (ingestVideo (okWorld failingLlm) 7 ''yt1'' False retryStore)))
       = [''completed'']
   \<and> map t_raw_text (transcripts (snd (ingestVideo (okWorld failingLlm) 7 ''yt1'' False retryStore)))
       = [''OLD RAW'']
   \<and> tags_call (w_llm (okWorld (okLlm [JString ''cardano'', JOther])))
       = Returns (TagArray [JString ''cardano'', JOther])
   \<and> fst (ingestVideo (okWorld (okLlm [JString ''cardano'', JOther])) 7 ''yt1'' False emptyStore)
       = Failed ''TypeError: tagName.toLowerCase is not a function''
   \<and> map vr_status
        (videos (snd (ingestVideo (okWorld (okLlm [JString ''cardano'', JOther])) 7 ''yt1'' False emptyStore)))
       = [''failed'']"
proof -
  have a: "summary_call (w_llm (okWorld failingLlm)) = Throws ''Error: 429''"
    by (simp add: okWorld_def failingLlm_def)
  have b: "map_option tr_text
        (acquireTranscript (w_captions (okWorld failingLlm)) (w_whisper (okWorld failingLlm)))
       = Some ''hello''"
    by (simp add: okWorld_def acquireTranscript_def fetchTranscript_def)
  have c: "tags_call (w_llm (okWorld (okLlm [JString ''cardano'', JOther])))
       = Returns (TagArray [JString ''cardano'', JOther])"
    by (simp add: okWorld_def okLlm_def)
  show ?thesis
    by (simp add: a b c ingest_retry_example ingest_bad_tag_example)
qed

section \<open>Properties of the normalizer\<close>

lemma replaceAll_absent: "pat \<noteq> [] \<Longrightarrow> hd pat \<notin> set s \<Longrightarrow> replaceAll pat rep s = s"
proof (induction s)
  case Nil
  then show ?case by (simp add: replaceAll.simps)
next
  case (Cons c cs)
  have "take (length pat) (c # cs) \<noteq> pat"
  proof
    assume "take (length pat) (c # cs) = pat"
    then have "hd pat = c" using Cons.prems(1) by (cases pat) auto
    with Cons.prems(2) show False by simp
  qed
  then show ?case using Cons by (simp add: replaceAll.simps)
qed

lemma decodeEntities_absent: "CHR ''&'' \<notin> set s \<Longrightarrow> decodeEntities s = s"
  by (simp add: decodeEntities_def replaceAll_absent)

lemma set_collapse_ws: "set (collapse_ws s) \<subseteq> insert CHR '' '' (set s)"
proof (induction s rule: collapse_ws.induct)
  case 1
  then show ?case by simp
next
  case (2 c cs)
  have "set (dropWhile is_space cs) \<subseteq> set cs"
    by (auto dest: set_dropWhileD)
  with 2 show ?case by auto
qed

lemma set_trim: "set (trim s) \<subseteq> set s"
  by (auto simp: trim_def dest!: set_dropWhileD)

lemma collapse_ws_hd:
  "z \<noteq> [] \<Longrightarrow> \<not> is_space (hd z) \<Longrightarrow> collapse_ws z \<noteq> [] \<and> \<not> is_space (hd (collapse_ws z))"
  by (cases z) auto

lemma dropWhile_nospace_hd: "z = [] \<or> \<not> is_space (hd z) \<Longrightarrow> dropWhile is_space z = z"
  by (cases z) auto

lemma dropWhile_space_hd: "dropWhile is_space cs = [] \<or> \<not> is_space (hd (dropWhile is_space cs))"
  using hd_dropWhile [of is_space cs] by blast

lemma collapse_ws_dropWhile:
  "dropWhile is_space (collapse_ws (dropWhile is_space cs)) = collapse_ws (dropWhile is_space cs)"
proof (cases "dropWhile is_space cs = []")
  case True
  show ?thesis unfolding True by simp
next
  case False
  then have "\<not> is_space (hd (dropWhile is_space cs))"
    by (rule hd_dropWhile)
  with False have "\<not> is_space (hd (collapse_ws (dropWhile is_space cs)))"
    using collapse_ws_hd by blast
  then show ?thesis by (intro dropWhile_nospace_hd) simp
qed

lemma collapse_ws_idem: "collapse_ws (collapse_ws s) = collapse_ws s"
proof (induction s rule: collapse_ws.induct)
  case 1
  then show ?case by simp
next
  case (2 c cs)
  show ?case
  proof (cases "is_space c")
    case True
    have sp: "is_space CHR '' ''" by (simp add: is_space_def)
    show ?thesis using True 2 sp by (simp add: collapse_ws_dropWhile)
  next
    case False
    then show ?thesis using 2 by simp
  qed
qed
lemma collapse_ws_fixed_hd:
  assumes "collapse_ws (c # cs) = c # cs" and "is_space c"
  shows "c = CHR '' ''" and "cs = [] \<or> \<not> is_space (hd cs)" and "collapse_ws cs = cs"
proof -
  from assms have c: "c = CHR '' ''" and cs: "collapse_ws (dropWhile is_space cs) = cs"
    by simp_all
  show "c = CHR '' ''" by (rule c)
  have "dropWhile is_space cs = cs"
    using collapse_ws_dropWhile [of cs] by (simp add: cs)
  then show "cs = [] \<or> \<not> is_space (hd cs)"
    using dropWhile_space_hd [of cs] by simp
  from \<open>dropWhile is_space cs = cs\<close> cs show "collapse_ws cs = cs" by simp
qed

lemma collapse_ws_prefix: "collapse_ws (xs @ ys) = xs @ ys \<Longrightarrow> collapse_ws xs = xs"
proof (induction xs)
  case Nil
  then show ?case by simp
next
  case (Cons c xs)
  show ?case
  proof (cases "is_space c")
    case True
    have fx: "collapse_ws (c # (xs @ ys)) = c # (xs @ ys)"
      using Cons.prems by simp
    note h = collapse_ws_fixed_hd [OF fx True]
    have "collapse_ws xs = xs"
      using h(3) by (rule Cons.IH)
    moreover have "dropWhile is_space xs = xs"
      using h(2) by (cases xs) auto
    ultimately show ?thesis using True h(1) by simp
  next
    case False
    then show ?thesis using Cons by simp
  qed
qed

lemma collapse_ws_fixed_dropWhile:
  "collapse_ws y = y \<Longrightarrow> collapse_ws (dropWhile is_space y) = dropWhile is_space y"
proof (cases y)
  case Nil
  then show ?thesis by simp
next
  case (Cons c cs)
  assume fx: "collapse_ws y = y"
  show ?thesis
  proof (cases "is_space c")
    case True
    note h = collapse_ws_fixed_hd [OF fx [unfolded Cons] True]
    have "dropWhile is_space cs = cs"
      using h(2) by (cases cs) auto
    then show ?thesis using Cons True h(3) by simp
  next
    case False
    then show ?thesis using Cons fx by simp
  qed
qed

lemma trim_prefix: "dropWhile is_space y = trim y @ rev (takeWhile is_space (rev (dropWhile is_space y)))"
proof -
  let ?a = "dropWhile is_space y"
  have "rev (dropWhile is_space (rev ?a)) @ rev (takeWhile is_space (rev ?a))
        = rev (takeWhile is_space (rev ?a) @ dropWhile is_space (rev ?a))"
    by (simp only: rev_append)
  also have "\<dots> = rev (rev ?a)"
    by (simp only: takeWhile_dropWhile_id)
  finally show ?thesis by (simp add: trim_def)
qed

lemma collapse_ws_fixed_trim: "collapse_ws y = y \<Longrightarrow> collapse_ws (trim y) = trim y"
proof -
  assume "collapse_ws y = y"
  then have "collapse_ws (dropWhile is_space y) = dropWhile is_space y"
    by (rule collapse_ws_fixed_dropWhile)
  then have "collapse_ws (trim y @ rev (takeWhile is_space (rev (dropWhile is_space y))))
        = trim y @ rev (takeWhile is_space (rev (dropWhile is_space y)))"
    using trim_prefix [of y] by simp
  then show ?thesis by (rule collapse_ws_prefix)
qed

lemma trim_idem: "trim (trim s) = trim s"
proof -
  let ?a = "dropWhile is_space s"
  let ?b = "dropWhile is_space (rev ?a)"
  have b: "dropWhile is_space ?b = ?b"
    by (intro dropWhile_nospace_hd dropWhile_space_hd)
  have "rev ?b = [] \<or> \<not> is_space (hd (rev ?b))"
  proof (cases "rev ?b = []")
    case True
    then show ?thesis by simp
  next
    case False
    have "?a = rev ?b @ rev (takeWhile is_space (rev ?a))"
      using trim_prefix [of s] by (simp add: trim_def)
    then have "hd ?a = hd (rev ?b)"
      using False by (metis hd_append2)
    moreover have "?a \<noteq> []"
    proof
      assume e: "?a = []"
      have "rev ?b = []" unfolding e by simp
      with False show False by simp
    qed
    ultimately show ?thesis using hd_dropWhile [of is_space s] by simp
  qed
  then have "dropWhile is_space (rev ?b) = rev ?b"
    by (rule dropWhile_nospace_hd)
  then show ?thesis by (simp add: trim_def b)
qed

lemma normalizeText_idem: "trim (collapse_ws (trim (collapse_ws s))) = trim (collapse_ws s)"
  by (simp add: collapse_ws_fixed_trim collapse_ws_idem trim_idem)

text \<open>
  Claim C2, as amended. With filler removal and paragraphing switched off, the
  normalizer is idempotent on every text that holds no ampersand: what is left is the
  white-space normalization, and normalizing its result again changes nothing.
\<close>

theorem cleanTranscriptText_idempotent:
  assumes "\<not> removeFillers opts"
    and "\<not> addParagraphs opts \<or> sentencesPerParagraph opts \<le> 0"
    and "CHR ''&'' \<notin> set s"
  shows "cleanTranscriptText (cleanTranscriptText s opts) opts = cleanTranscriptText s opts"
proof -
  have first: "cleanTranscriptText s opts = trim (collapse_ws s)"
    using assms by (auto simp: cleanTranscriptText_def decodeEntities_absent)
  have "set (trim (collapse_ws s)) \<subseteq> insert CHR '' '' (set s)"
    using set_trim [of "collapse_ws s"] set_collapse_ws [of s] by blast
  then have "CHR ''&'' \<notin> set (trim (collapse_ws s))"
    using assms(3) by auto
  then have "cleanTranscriptText (trim (collapse_ws s)) opts = trim (collapse_ws (trim (collapse_ws s)))"
    using assms(1,2) by (auto simp: cleanTranscriptText_def decodeEntities_absent)
  then show ?thesis
    by (simp add: first normalizeText_idem)
qed

text \<open>
  Claim C2 as stated fails in each of the three stages. With the default options, a
  sentence that begins with a space after a lone full stop leaves two spaces that the
  second pass collapses; the second of two \<^verbatim>\<open>like\<close> is removed in the first pass and
  the first in the second; and with both options off, a threefold encoded apostrophe is
  decoded to an entity that the second pass decodes again.
\<close>

theorem cleanTranscriptText_not_idempotent:
  "cleanTranscriptText ''a. . b.'' defaultOptions = ''a.  b.''
   \<and> cleanTranscriptText ''a.  b.'' defaultOptions = ''a. b.''
   \<and> cleanTranscriptText ''like like the'' defaultOptions = ''like the''
   \<and> cleanTranscriptText ''like the'' defaultOptions = ''the''
   \<and> cleanTranscriptText ''&amp;amp;amp;#39;'' \<lparr>removeFillers = False, addParagraphs = False, sentencesPerParagraph = 4\<rparr> = ''&#39;''
   \<and> cleanTranscriptText ''&#39;'' \<lparr>removeFillers = False, addParagraphs = False, sentencesPerParagraph = 4\<rparr> = [CHR 0x27]"
  by code_simp

theorem cleanTranscriptText_idempotent_witness:
  "CHR ''&'' \<notin> set ''  So  it goes. ''
   \<and> cleanTranscriptText ''  So  it goes. '' \<lparr>removeFillers = False, addParagraphs = False, sentencesPerParagraph = 4\<rparr> = ''So it goes.''
   \<and> cleanTranscriptText ''So it goes.'' \<lparr>removeFillers = False, addParagraphs = False, sentencesPerParagraph = 4\<rparr> = ''So it goes.''"
proof -
  have a: "CHR ''&'' \<notin> set ''  So  it goes. ''" by simp
  have b: "cleanTranscriptText ''  So  it goes. '' \<lparr>removeFillers = False, addParagraphs = False, sentencesPerParagraph = 4\<rparr> = ''So it goes.''"
    by code_simp
  show ?thesis
    using a b cleanTranscriptText_idempotent [of "\<lparr>removeFillers = False, addParagraphs = False, sentencesPerParagraph = 4\<rparr>" "''  So  it goes. ''"]
    by simp
qed

end
